theory Spec2Isabelle
  imports Main "HOL-Library.AList" "HOL-Library.Sublist" "HOL-Library.Multiset_Order"
begin

section \<open>Data model of \<^verbatim>\<open>html_jparser/core.py\<close>\<close>

text \<open>
  Exceptions of the Python source are values of \<open>error\<close>; a function that may raise
  returns \<open>error + 'a\<close> with \<open>Inl\<close> for the exception. A \<^verbatim>\<open>while\<close> loop whose
  termination depends on the shape of the object graph is a
  \<^theory_text>\<open>partial_function (option)\<close>: \<open>None\<close> is "does not return".
\<close>

datatype error = AttributeError | ValueError | IndexError | TypeError

text \<open>
  \<^verbatim>\<open>HtmlTag\<close> objects are mutable and are shared through references
  (\<^verbatim>\<open>parent\<close>, \<^verbatim>\<open>children\<close>, \<^verbatim>\<open>cur_tag\<close>, the result lists of \<^verbatim>\<open>select\<close>),
  so they live in a store indexed by object identity. The values of the
  \<^verbatim>\<open>attrs\<close> dictionary are what \<^verbatim>\<open>html.parser\<close> delivers (a string or
  \<^verbatim>\<open>None\<close>) or, for the key \<^verbatim>\<open>class\<close>, the list made by \<^verbatim>\<open>handle_starttag\<close>.
  A dictionary is an association list in insertion order with unique keys.
\<close>

type_synonym ref = nat

datatype attr_value = Str string | NoneVal | StrList "string list"

record HtmlTag =
  tag :: string
  attrs :: "(string \<times> attr_value) list"
  parent :: "ref option"
  children :: "ref list"
  comments :: "string list"
  text' :: string

type_synonym store = "ref \<Rightarrow> HtmlTag"

text \<open>\<^verbatim>\<open>HtmlTag.__init__(tag, attrs, parent=None)\<close>\<close>

definition HtmlTag_init :: "string \<Rightarrow> (string \<times> attr_value) list \<Rightarrow> ref option \<Rightarrow> HtmlTag" where
  "HtmlTag_init t a p =
     \<lparr>tag = t, attrs = a, parent = p, children = [], comments = [], text' = []\<rparr>"

text \<open>\<^verbatim>\<open>str.split(sep)\<close> for a one-character separator: empty pieces are kept.\<close>

fun split :: "char \<Rightarrow> string \<Rightarrow> string list" where
  "split sep [] = [[]]"
| "split sep (c # cs) =
     (if c = sep then [] # split sep cs
      else (case split sep cs of [] \<Rightarrow> [[c]] | w # ws \<Rightarrow> (c # w) # ws))"

section \<open>The tree builder: \<^verbatim>\<open>CustomHTMLParser\<close>\<close>

text \<open>
  The state of a \<^verbatim>\<open>CustomHTMLParser\<close>: the store of all \<^verbatim>\<open>HtmlTag\<close> objects, the
  identity the next created object gets, \<^verbatim>\<open>self.root\<close> and \<^verbatim>\<open>self.cur_tag\<close>
  (which becomes \<^verbatim>\<open>None\<close> when the root itself is closed). Identities are handed
  out in creation order, the root being object 0; the store holds an empty
  placeholder at every identity not yet handed out, which no reference points to.
\<close>

record CustomHTMLParser =
  heap :: store
  nxt :: ref
  root :: ref
  cur_tag :: "ref option"

definition CustomHTMLParser_init :: CustomHTMLParser where
  "CustomHTMLParser_init =
     \<lparr>heap = (\<lambda>_. HtmlTag_init [] [] None)(0 := HtmlTag_init ''root'' [] None),
      nxt = 1, root = 0, cur_tag = Some 0\<rparr>"

text \<open>The calls \<^verbatim>\<open>HTMLParser.feed\<close> makes on the handlers, in document order.\<close>

datatype event =
    Starttag string "(string \<times> string option) list"
  | Endtag string
  | Data string
  | Comment string

text \<open>\<^verbatim>\<open>dict(attrs)\<close>: a later pair with the same key overwrites the value in place.\<close>

definition dict :: "('k \<times> 'v) list \<Rightarrow> ('k \<times> 'v) list" where
  "dict kvs = fold (\<lambda>(k, v) d. AList.update k v d) kvs []"

definition attr_of :: "string option \<Rightarrow> attr_value" where
  "attr_of v = (case v of None \<Rightarrow> NoneVal | Some s \<Rightarrow> Str s)"

definition handle_starttag ::
  "string \<Rightarrow> (string \<times> string option) list \<Rightarrow> CustomHTMLParser \<Rightarrow> error + CustomHTMLParser" where
  "handle_starttag tg ats s =
     (let d = dict (map (\<lambda>(k, v). (k, attr_of v)) ats) in
      case (case map_of d ''class'' of
              None \<Rightarrow> Inr d
            | Some (Str c) \<Rightarrow> Inr (AList.update ''class'' (StrList (split CHR '' '' c)) d)
            | Some _ \<Rightarrow> Inl AttributeError) of
        Inl e \<Rightarrow> Inl e
      | Inr d' \<Rightarrow>
         (case cur_tag s of
            None \<Rightarrow> Inl AttributeError
          | Some c \<Rightarrow>
              let t = nxt s;
                  h1 = (heap s)(t := HtmlTag_init tg d' (Some c));
                  h2 = h1(c := (h1 c)\<lparr>children := children (h1 c) @ [t]\<rparr>)
              in Inr (s\<lparr>heap := h2, nxt := Suc t, cur_tag := Some t\<rparr>)))"

text \<open>
  The \<^verbatim>\<open>while\<close> loop of \<^verbatim>\<open>handle_endtag\<close>: it returns the store, the node the
  cursor stopped at and the collected list \<^verbatim>\<open>tags\<close>; reading \<^verbatim>\<open>.tag\<close> of
  \<^verbatim>\<open>None\<close> raises.
\<close>

partial_function (option) endtag_loop ::
  "store \<Rightarrow> ref option \<Rightarrow> string \<Rightarrow> ref list \<Rightarrow> (error + store \<times> ref \<times> ref list) option" where
  "endtag_loop h cur tg tags =
     (case cur of
        None \<Rightarrow> Some (Inl AttributeError)
      | Some c \<Rightarrow>
          if tag (h c) \<noteq> tg
          then endtag_loop (h(c := (h c)\<lparr>children := []\<rparr>)) (parent (h c)) tg (tags @ children (h c))
          else Some (Inr (h, c, tags)))"

declare endtag_loop.simps [code]

text \<open>The \<^verbatim>\<open>for t in tags\<close> loop: \<^verbatim>\<open>t.parent = self.cur_tag; t.children = []\<close>.\<close>

definition reparent :: "ref \<Rightarrow> ref \<Rightarrow> store \<Rightarrow> store" where
  "reparent c t h = h(t := (h t)\<lparr>parent := Some c, children := []\<rparr>)"

definition handle_endtag :: "string \<Rightarrow> CustomHTMLParser \<Rightarrow> (error + CustomHTMLParser) option" where
  "handle_endtag tg s =
     (case endtag_loop (heap s) (cur_tag s) tg [] of
        None \<Rightarrow> None
      | Some (Inl e) \<Rightarrow> Some (Inl e)
      | Some (Inr (h, c, tags)) \<Rightarrow>
          let h1 = fold (reparent c) tags h;
              h2 = h1(c := (h1 c)\<lparr>children := children (h1 c) @ tags\<rparr>)
          in Some (Inr (s\<lparr>heap := h2, cur_tag := parent (h2 c)\<rparr>)))"

definition handle_data :: "string \<Rightarrow> CustomHTMLParser \<Rightarrow> error + CustomHTMLParser" where
  "handle_data d s =
     (case cur_tag s of
        None \<Rightarrow> Inl AttributeError
      | Some c \<Rightarrow> Inr (s\<lparr>heap := (heap s)(c := (heap s c)\<lparr>text' := text' (heap s c) @ d\<rparr>)\<rparr>))"

definition handle_comment :: "string \<Rightarrow> CustomHTMLParser \<Rightarrow> error + CustomHTMLParser" where
  "handle_comment d s =
     (case cur_tag s of
        None \<Rightarrow> Inl AttributeError
      | Some c \<Rightarrow> Inr (s\<lparr>heap := (heap s)(c := (heap s c)\<lparr>comments := comments (heap s c) @ [d]\<rparr>)\<rparr>))"

fun handle :: "event \<Rightarrow> CustomHTMLParser \<Rightarrow> (error + CustomHTMLParser) option" where
  "handle (Starttag tg ats) s = Some (handle_starttag tg ats s)"
| "handle (Endtag tg) s = handle_endtag tg s"
| "handle (Data d) s = Some (handle_data d s)"
| "handle (Comment d) s = Some (handle_comment d s)"

text \<open>
  \<^verbatim>\<open>feed\<close>: the handlers run in order on one parser object; the first exception
  ends the run. The result is the parser state, whose \<^verbatim>\<open>root\<close> the source returns.
\<close>

fun feed_from :: "CustomHTMLParser \<Rightarrow> event list \<Rightarrow> (error + CustomHTMLParser) option" where
  "feed_from s [] = Some (Inr s)"
| "feed_from s (e # es) =
     (case handle e s of
        None \<Rightarrow> None
      | Some (Inl err) \<Rightarrow> Some (Inl err)
      | Some (Inr s') \<Rightarrow> feed_from s' es)"

definition feed :: "event list \<Rightarrow> (error + CustomHTMLParser) option" where
  "feed es = feed_from CustomHTMLParser_init es"


section \<open>The selector parser: \<^verbatim>\<open>Selector\<close>\<close>

record Selector =
  cmd :: string
  sel_tag :: string
  cls :: "string list"
  sel_id :: string
  sel_attrs :: "(string \<times> string) list"

text \<open>The class attributes \<^verbatim>\<open>cls_sep\<close>, \<^verbatim>\<open>id_sep\<close>, \<^verbatim>\<open>attr_sep\<close> and \<^verbatim>\<open>sep\<close>.\<close>

definition cls_sep :: char where "cls_sep = CHR ''.''"
definition id_sep :: char where "id_sep = CHR ''#''"
definition attr_sep :: string where "attr_sep = ''[]''"
definition sep :: char where "sep = CHR '' ''"

text \<open>Python's slice \<^verbatim>\<open>s[a:b]\<close> for indices that are not negative.\<close>

definition slice :: "'a list \<Rightarrow> nat \<Rightarrow> nat \<Rightarrow> 'a list" where
  "slice s a b = drop a (take b s)"

text \<open>\<^verbatim>\<open>__clean_tag\<close>: the loop over \<^verbatim>\<open>enumerate(self.cmd)\<close>, from index \<open>i\<close> on.\<close>

fun clean_tag_loop :: "string \<Rightarrow> string \<Rightarrow> nat \<Rightarrow> string \<Rightarrow> string" where
  "clean_tag_loop c seps i [] = c"
| "clean_tag_loop c seps i (x # xs) =
     (if x \<in> set seps then take i c else clean_tag_loop c seps (Suc i) xs)"

definition clean_tag :: "string \<Rightarrow> string" where
  "clean_tag c = clean_tag_loop c (cls_sep # id_sep # attr_sep) 0 c"

text \<open>
  The truth value of \<^verbatim>\<open>start\<close>, which holds \<^verbatim>\<open>None\<close> or an index: \<^verbatim>\<open>None\<close> and
  the index 0 are false.
\<close>

definition truthy :: "nat option \<Rightarrow> bool" where
  "truthy start = (case start of None \<Rightarrow> False | Some k \<Rightarrow> k \<noteq> 0)"

text \<open>
  \<^verbatim>\<open>__clean\<close>: the loop over \<^verbatim>\<open>enumerate(self.cmd)\<close> with its two variables
  \<^verbatim>\<open>start\<close> and \<^verbatim>\<open>cls_list\<close>, then the append after the loop.
\<close>

fun clean_loop ::
  "string \<Rightarrow> char \<Rightarrow> string \<Rightarrow> nat option \<Rightarrow> string list \<Rightarrow> nat \<Rightarrow> string \<Rightarrow> nat option \<times> string list" where
  "clean_loop c start_sep stop_sep start cls_list i [] = (start, cls_list)"
| "clean_loop c start_sep stop_sep start cls_list i (x # xs) =
     (let (start1, cls_list1) =
            (if x \<in> set stop_sep \<and> truthy start
             then (None, cls_list @ [slice c (case start of None \<Rightarrow> 0 | Some k \<Rightarrow> k + 1) i])
             else (start, cls_list));
          start2 = (if x = start_sep then Some i else start1)
      in clean_loop c start_sep stop_sep start2 cls_list1 (Suc i) xs)"

definition clean_finish :: "string \<Rightarrow> nat option \<times> string list \<Rightarrow> string list" where
  "clean_finish c r =
     (case r of
        (None, cls_list) \<Rightarrow> cls_list
      | (Some k, cls_list) \<Rightarrow> cls_list @ [drop (k + 1) c])"

definition clean :: "char \<Rightarrow> string \<Rightarrow> string \<Rightarrow> string list" where
  "clean start_sep stop_sep c =
     (if start_sep \<notin> set c then []
      else clean_finish c (clean_loop c start_sep stop_sep None [] 0 c))"

definition clean_cls :: "string \<Rightarrow> string list" where
  "clean_cls c = clean cls_sep (cls_sep # id_sep # attr_sep) c"

definition clean_id :: "string \<Rightarrow> string" where
  "clean_id c =
     (let ids = clean id_sep (cls_sep # id_sep # attr_sep) c
      in case ids of [] \<Rightarrow> [] | x # _ \<Rightarrow> x)"

text \<open>
  \<^verbatim>\<open>__clean_attrs\<close>: the loop \<^verbatim>\<open>key, value = attr.split('=')\<close> raises
  \<^verbatim>\<open>ValueError\<close> unless the split gives exactly two pieces.
\<close>

fun attrs_loop :: "string list \<Rightarrow> (string \<times> string) list \<Rightarrow> error + (string \<times> string) list" where
  "attrs_loop [] d = Inr d"
| "attrs_loop (a # as) d =
     (case split CHR ''='' a of
        [key, val] \<Rightarrow> attrs_loop as (AList.update key val d)
      | _ \<Rightarrow> Inl ValueError)"

definition clean_attrs :: "string \<Rightarrow> error + (string \<times> string) list" where
  "clean_attrs c =
     (let ats = (if length attr_sep > 1
                 then clean (attr_sep ! 0) [attr_sep ! 1] c
                 else clean (attr_sep ! 0) (cls_sep # id_sep # attr_sep) c)
      in attrs_loop ats [])"

text \<open>\<^verbatim>\<open>Selector.__init__\<close>\<close>

definition Selector_init :: "string \<Rightarrow> error + Selector" where
  "Selector_init c =
     (case clean_attrs c of
        Inl e \<Rightarrow> Inl e
      | Inr a \<Rightarrow> Inr \<lparr>cmd = c, sel_tag = clean_tag c, cls = clean_cls c, sel_id = clean_id c,
                     sel_attrs = a\<rparr>)"

text \<open>A list comprehension whose element expression may raise.\<close>

fun map_err :: "('a \<Rightarrow> error + 'b) \<Rightarrow> 'a list \<Rightarrow> error + 'b list" where
  "map_err f [] = Inr []"
| "map_err f (x # xs) =
     (case f x of
        Inl e \<Rightarrow> Inl e
      | Inr y \<Rightarrow> (case map_err f xs of Inl e \<Rightarrow> Inl e | Inr ys \<Rightarrow> Inr (y # ys)))"

text \<open>\<^verbatim>\<open>Selector.parse\<close>\<close>

definition Selector_parse :: "string \<Rightarrow> error + Selector list" where
  "Selector_parse c = map_err Selector_init (split sep c)"

subsection \<open>Matching a selector against a node\<close>

definition check_tag :: "Selector \<Rightarrow> HtmlTag \<Rightarrow> bool" where
  "check_tag s t = (if sel_tag s \<noteq> [] then sel_tag s = tag t else True)"

definition check_id :: "Selector \<Rightarrow> HtmlTag \<Rightarrow> bool" where
  "check_id s t =
     (if sel_id s \<noteq> []
      then (case map_of (attrs t) ''id'' of None \<Rightarrow> False | Some v \<Rightarrow> Str (sel_id s) = v)
      else True)"

text \<open>
  \<^verbatim>\<open>cls in html_tag.attrs['class']\<close>: membership in a list, the substring test on a
  string, \<^verbatim>\<open>TypeError\<close> on \<^verbatim>\<open>None\<close>.
\<close>

definition py_in :: "string \<Rightarrow> attr_value \<Rightarrow> error + bool" where
  "py_in x v =
     (case v of
        StrList l \<Rightarrow> Inr (x \<in> set l)
      | Str s \<Rightarrow> Inr (sublist x s)
      | NoneVal \<Rightarrow> Inl TypeError)"

text \<open>\<^verbatim>\<open>all(cls in v for cls in cs)\<close> stops at the first false element.\<close>

fun all_in :: "string list \<Rightarrow> attr_value \<Rightarrow> error + bool" where
  "all_in [] v = Inr True"
| "all_in (c # cs) v =
     (case py_in c v of
        Inl e \<Rightarrow> Inl e
      | Inr b \<Rightarrow> if b then all_in cs v else Inr False)"

definition check_cls :: "Selector \<Rightarrow> HtmlTag \<Rightarrow> error + bool" where
  "check_cls s t =
     (if length (cls s) > 0
      then (case map_of (attrs t) ''class'' of None \<Rightarrow> Inr False | Some v \<Rightarrow> all_in (cls s) v)
      else Inr True)"

text \<open>\<^verbatim>\<open>__check_attrs\<close>: the loop over \<^verbatim>\<open>self.attrs.items()\<close>.\<close>

fun check_attrs_loop :: "(string \<times> string) list \<Rightarrow> HtmlTag \<Rightarrow> bool" where
  "check_attrs_loop [] t = True"
| "check_attrs_loop ((key, val) # kvs) t =
     (if (case map_of (attrs t) key of None \<Rightarrow> True | Some v \<Rightarrow> Str val \<noteq> v) then False
      else check_attrs_loop kvs t)"

definition check_attrs :: "Selector \<Rightarrow> HtmlTag \<Rightarrow> bool" where
  "check_attrs s t = check_attrs_loop (sel_attrs s) t"

text \<open>\<^verbatim>\<open>check_html_tag\<close>: \<^verbatim>\<open>and\<close> evaluates its operands from the left and stops at
  the first false one.\<close>

definition check_html_tag :: "Selector \<Rightarrow> HtmlTag \<Rightarrow> error + bool" where
  "check_html_tag s t =
     (if \<not> check_tag s t then Inr False
      else if \<not> check_id s t then Inr False
      else case check_cls s t of
             Inl e \<Rightarrow> Inl e
           | Inr b \<Rightarrow> if \<not> b then Inr False else Inr (check_attrs s t))"


section \<open>The matching engine: \<^verbatim>\<open>HtmlTag.select\<close>\<close>

text \<open>
  The \<^verbatim>\<open>while not q.empty()\<close> loop. The queue holds pairs of a node and the
  remaining selectors; \<^verbatim>\<open>selectors[0]\<close> of an empty list raises \<^verbatim>\<open>IndexError\<close>.
\<close>

partial_function (option) select_loop ::
  "store \<Rightarrow> (ref \<times> Selector list) list \<Rightarrow> ref list \<Rightarrow> (error + ref list) option" where
  "select_loop h q results =
     (case q of
        [] \<Rightarrow> Some (Inr results)
      | (html_tag, selectors) # q' \<Rightarrow>
          let q1 = q' @ map (\<lambda>child. (child, selectors)) (children (h html_tag)) in
          (case selectors of
             [] \<Rightarrow> Some (Inl IndexError)
           | s0 # rest \<Rightarrow>
              (case check_html_tag s0 (h html_tag) of
                 Inl e \<Rightarrow> Some (Inl e)
               | Inr ok \<Rightarrow>
                   if ok then
                     if length selectors = 1 then select_loop h q1 (results @ [html_tag])
                     else select_loop h (q1 @ map (\<lambda>child. (child, rest)) (children (h html_tag)))
                            results
                   else select_loop h q1 results)))"

declare select_loop.simps [code]

definition HtmlTag_select :: "store \<Rightarrow> ref \<Rightarrow> string \<Rightarrow> (error + ref list) option" where
  "HtmlTag_select h self c =
     (case Selector_parse c of
        Inl e \<Rightarrow> Some (Inl e)
      | Inr selectors \<Rightarrow> select_loop h [(self, selectors)] [])"

section \<open>Path addressing: \<^verbatim>\<open>get_path\<close>, \<^verbatim>\<open>get_tag\<close> and the cache\<close>

text \<open>The inner \<^verbatim>\<open>for i, child in enumerate(...)\<close> loop: the first index of \<open>x\<close>.\<close>

fun index_from :: "nat \<Rightarrow> 'a \<Rightarrow> 'a list \<Rightarrow> nat option" where
  "index_from i x [] = None"
| "index_from i x (c # cs) = (if x = c then Some i else index_from (Suc i) x cs)"

text \<open>\<^verbatim>\<open>str(i)\<close> of an index: decimal digits without leading zeros.\<close>

definition digits :: string where "digits = ''0123456789''"

fun str :: "nat \<Rightarrow> string" where
  "str n = (if n < 10 then [digits ! n] else str (n div 10) @ [digits ! (n mod 10)])"

declare str.simps [simp del]

text \<open>The \<^verbatim>\<open>while cur_tag.parent\<close> loop of \<^verbatim>\<open>get_path\<close>; an \<^verbatim>\<open>HtmlTag\<close> is always true.\<close>

partial_function (option) get_path_loop :: "store \<Rightarrow> ref \<Rightarrow> string \<Rightarrow> string option" where
  "get_path_loop h cur path =
     (case parent (h cur) of
        None \<Rightarrow> Some path
      | Some p \<Rightarrow>
          get_path_loop h p
            ((case index_from 0 cur (children (h p)) of
                None \<Rightarrow> []
              | Some i \<Rightarrow> CHR '':'' # str i) @ path))"

declare get_path_loop.simps [code]

definition get_path :: "store \<Rightarrow> ref \<Rightarrow> string option" where
  "get_path h self = (case get_path_loop h self [] of None \<Rightarrow> None | Some path \<Rightarrow> Some (drop 1 path))"

text \<open>
  \<^verbatim>\<open>int(s)\<close> on ASCII text: white space around the number (tab, line feed, vertical
  tab, form feed, carriage return, space) is dropped, one sign is allowed, and single
  underscores may separate digits. The interpreter's limit on the number of digits
  (4300 unless configured otherwise) is not part of this model.
\<close>

definition is_space :: "char \<Rightarrow> bool" where
  "is_space c = (c \<in> set [CHR 0x09, CHR 0x0A, CHR 0x0B, CHR 0x0C, CHR 0x0D, CHR 0x20])"

definition strip :: "string \<Rightarrow> string" where
  "strip s = rev (dropWhile is_space (rev (dropWhile is_space s)))"

fun digits_ok :: "string \<Rightarrow> bool" where
  "digits_ok [] = False"
| "digits_ok [c] = (c \<in> set digits)"
| "digits_ok (c # d # cs) =
     (c \<in> set digits \<and> (if d = CHR ''_'' then digits_ok cs else digits_ok (d # cs)))"

definition digit_val :: "char \<Rightarrow> nat" where
  "digit_val c = (case index_from 0 c digits of None \<Rightarrow> 0 | Some i \<Rightarrow> i)"

definition py_int :: "string \<Rightarrow> error + int" where
  "py_int s =
     (let t = strip s;
          (neg, body) = (case t of
                           [] \<Rightarrow> (False, [])
                         | c # r \<Rightarrow> if c = CHR ''-'' then (True, r)
                                    else if c = CHR ''+'' then (False, r) else (False, t))
      in if digits_ok body
         then Inr ((if neg then - 1 else 1) *
                   int (foldl (\<lambda>a c. 10 * a + digit_val c) 0 (filter (\<lambda>c. c \<noteq> CHR ''_'') body)))
         else Inl ValueError)"

text \<open>\<^verbatim>\<open>xs[i]\<close>: a negative index counts from the end, an index out of range raises.\<close>

definition getitem :: "'a list \<Rightarrow> int \<Rightarrow> error + 'a" where
  "getitem xs i =
     (if 0 \<le> i \<and> i < int (length xs) then Inr (xs ! nat i)
      else if i < 0 \<and> - int (length xs) \<le> i then Inr (xs ! nat (int (length xs) + i))
      else Inl IndexError)"

text \<open>The \<^verbatim>\<open>for index in index_list\<close> loop of \<^verbatim>\<open>get_tag\<close>.\<close>

fun get_tag_loop :: "store \<Rightarrow> ref \<Rightarrow> int list \<Rightarrow> error + ref" where
  "get_tag_loop h t [] = Inr t"
| "get_tag_loop h t (i # is) =
     (case getitem (children (h t)) i of
        Inl e \<Rightarrow> Inl e
      | Inr c \<Rightarrow> get_tag_loop h c is)"

text \<open>
  An \<^verbatim>\<open>HtmlParser\<close> object: \<^verbatim>\<open>self.cache_dict\<close>, \<^verbatim>\<open>self.root\<close> and the store its
  tree lives in. A method that raises leaves the object as it was, so the error
  result carries no state.
\<close>

record HtmlParser =
  cache_dict :: "(string \<times> string list) list"
  objects :: store
  root_tag :: ref

definition get_tag :: "HtmlParser \<Rightarrow> string \<Rightarrow> error + ref" where
  "get_tag P path =
     (case map_err py_int (split CHR '':'' path) of
        Inl e \<Rightarrow> Inl e
      | Inr index_list \<Rightarrow> get_tag_loop (objects P) (root_tag P) index_list)"

definition get_tags :: "HtmlParser \<Rightarrow> string list \<Rightarrow> error + ref list" where
  "get_tags P path_list = map_err (get_tag P) path_list"

text \<open>
  \<^verbatim>\<open>HtmlParser.__init__\<close> and \<^verbatim>\<open>parse\<close>, given the handler calls that the text makes:
  the new tree replaces the old one, the cache is kept.
\<close>

definition HtmlParser_parse :: "event list \<Rightarrow> HtmlParser \<Rightarrow> (error + HtmlParser) option" where
  "HtmlParser_parse es P =
     (case feed es of
        None \<Rightarrow> None
      | Some (Inl e) \<Rightarrow> Some (Inl e)
      | Some (Inr b) \<Rightarrow> Some (Inr (P\<lparr>objects := heap b, root_tag := root b\<rparr>)))"

definition HtmlParser_init :: "event list \<Rightarrow> (error + HtmlParser) option" where
  "HtmlParser_init es =
     (case feed es of
        None \<Rightarrow> None
      | Some (Inl e) \<Rightarrow> Some (Inl e)
      | Some (Inr b) \<Rightarrow> Some (Inr \<lparr>cache_dict = [], objects = heap b, root_tag = root b\<rparr>))"

text \<open>The loop \<^verbatim>\<open>for tag in tags: self.cache_dict[cmd].append(tag.get_path())\<close>.\<close>

fun paths_loop :: "store \<Rightarrow> ref list \<Rightarrow> string list \<Rightarrow> string list option" where
  "paths_loop h [] acc = Some acc"
| "paths_loop h (t # ts) acc =
     (case get_path h t of None \<Rightarrow> None | Some p \<Rightarrow> paths_loop h ts (acc @ [p]))"

definition HtmlParser_select ::
  "HtmlParser \<Rightarrow> string \<Rightarrow> bool \<Rightarrow> (error + ref list \<times> HtmlParser) option" where
  "HtmlParser_select P c cache =
     (case (if cache then map_of (cache_dict P) c else None) of
        Some path_list \<Rightarrow>
          (case get_tags P path_list of Inl e \<Rightarrow> Some (Inl e) | Inr ts \<Rightarrow> Some (Inr (ts, P)))
      | None \<Rightarrow>
          (case HtmlTag_select (objects P) (root_tag P) c of
             None \<Rightarrow> None
           | Some (Inl e) \<Rightarrow> Some (Inl e)
           | Some (Inr tags) \<Rightarrow>
               (case paths_loop (objects P) tags [] of
                  None \<Rightarrow> None
                | Some paths \<Rightarrow>
                    Some (Inr (tags,
                      P\<lparr>cache_dict := AList.update c paths (AList.update c [] (cache_dict P))\<rparr>)))))"

section \<open>Notions used to state the properties\<close>

text \<open>
  \<open>chain h cur vs e\<close>: starting at the cursor \<open>cur\<close> and following \<^verbatim>\<open>parent\<close>, the
  nodes passed are \<open>vs\<close>, in that order, and the walk then stands at \<open>e\<close>.
\<close>

fun chain :: "store \<Rightarrow> ref option \<Rightarrow> ref list \<Rightarrow> ref option \<Rightarrow> bool" where
  "chain h cur [] e = (cur = e)"
| "chain h cur (v # vs) e = (cur = Some v \<and> chain h (parent (h v)) vs e)"

text \<open>The text \<^verbatim>\<open>get_path\<close> builds for the indices \<open>is\<close>, before its first character is dropped.\<close>

definition enc :: "nat list \<Rightarrow> string" where
  "enc is = concat (map (\<lambda>i. CHR '':'' # str i) is)"

text \<open>The proper descendants of a node along \<^verbatim>\<open>children\<close>.\<close>

inductive descendant :: "store \<Rightarrow> ref \<Rightarrow> ref \<Rightarrow> bool" for h :: store and r :: ref where
  child: "c \<in> set (children (h r)) \<Longrightarrow> descendant h r c"
| step: "descendant h r m \<Longrightarrow> c \<in> set (children (h m)) \<Longrightarrow> descendant h r c"

text \<open>
  The substrings of a token introduced by the character \<open>a\<close> and ended by the next
  character of \<open>stops\<close> or by the end of the token; a further \<open>a\<close> before that end
  starts the substring afresh.
\<close>

fun segments :: "char \<Rightarrow> string \<Rightarrow> string \<Rightarrow> string list" where
  "segments a stops [] = []"
| "segments a stops (c # cs) =
     (if c = a \<and> a \<notin> set (takeWhile (\<lambda>x. x \<notin> set stops) cs)
      then takeWhile (\<lambda>x. x \<notin> set stops) cs # segments a stops cs
      else segments a stops cs)"

text \<open>
  The same without the restart: every \<open>a\<close> introduces a substring, which runs to the
  next character of \<open>stops\<close> or to the end of the token.
\<close>

fun substrings_after :: "char \<Rightarrow> string \<Rightarrow> string \<Rightarrow> string list" where
  "substrings_after a stops [] = []"
| "substrings_after a stops (c # cs) =
     (if c = a then takeWhile (\<lambda>x. x \<notin> set stops) cs # substrings_after a stops cs
      else substrings_after a stops cs)"

text \<open>A node is within a queue when it is a node of the queue or a descendant of one.\<close>

definition within :: "store \<Rightarrow> (ref \<times> Selector list) list \<Rightarrow> ref \<Rightarrow> bool" where
  "within h q x \<longleftrightarrow> (\<exists>n\<in>fst ` set q. x = n \<or> descendant h n x)"

text \<open>The root object of a built tree: \<^verbatim>\<open>HtmlTag('root', {})\<close>, created first.\<close>

definition root_inv :: "CustomHTMLParser \<Rightarrow> bool" where
  "root_inv s \<longleftrightarrow> 0 < nxt s \<and> tag (heap s 0) = ''root'' \<and> attrs (heap s 0) = []"

text \<open>Splitting \<^verbatim>\<open>key=value\<close> at the first \<^verbatim>\<open>=\<close>.\<close>

definition key_of :: "string \<Rightarrow> string" where
  "key_of a = takeWhile (\<lambda>x. x \<noteq> CHR ''='') a"

definition value_of :: "string \<Rightarrow> string" where
  "value_of a = drop 1 (dropWhile (\<lambda>x. x \<noteq> CHR ''='') a)"

definition attrs_dict :: "string list \<Rightarrow> (string \<times> string) list" where
  "attrs_dict as = fold (\<lambda>a d. AList.update (key_of a) (value_of a) d) as []"


text \<open>
  The shape every store made by the builder has: a node listed among the children of
  \<open>p\<close> has \<open>p\<close> as its parent, and a parent was created before its child (object
  identities are handed out in creation order, below \<open>nxt\<close>; the root is object 0).
\<close>

definition parent_of_child :: "store \<Rightarrow> bool" where
  "parent_of_child h \<longleftrightarrow> (\<forall>p c. c \<in> set (children (h p)) \<longrightarrow> parent (h c) = Some p)"

definition ordered :: "store \<Rightarrow> nat \<Rightarrow> bool" where
  "ordered h N \<longleftrightarrow> (\<forall>n p. parent (h n) = Some p \<longrightarrow> p < n \<and> n < N)"

definition tree_inv :: "CustomHTMLParser \<Rightarrow> bool" where
  "tree_inv s \<longleftrightarrow>
     root s = 0 \<and> parent_of_child (heap s) \<and> ordered (heap s) (nxt s) \<and>
     (\<forall>c. cur_tag s = Some c \<longrightarrow> c < nxt s)"

text \<open>
  A \<^verbatim>\<open>class\<close> attribute of a node made by the builder is the list of its tokens.
\<close>

definition class_is_list :: "HtmlTag \<Rightarrow> bool" where
  "class_is_list t =
     (case map_of (attrs t) ''class'' of
        None \<Rightarrow> True
      | Some (StrList l) \<Rightarrow> True
      | Some _ \<Rightarrow> False)"

text \<open>The store after the \<^verbatim>\<open>while\<close> loop of \<^verbatim>\<open>handle_endtag\<close> has passed the nodes \<open>vs\<close>.\<close>

definition clear_children :: "ref list \<Rightarrow> store \<Rightarrow> store" where
  "clear_children vs h = (\<lambda>n. if n \<in> set vs then (h n)\<lparr>children := []\<rparr> else h n)"

text \<open>
  The orphan list in the order the loop collects it: the children of the cursor
  first, then those of each further node passed on the way up.
\<close>

definition orphans_of :: "store \<Rightarrow> ref list \<Rightarrow> ref list" where
  "orphans_of h vs = concat (map (\<lambda>v. children (h v)) vs)"

text \<open>The store after a whole \<^verbatim>\<open>handle_endtag\<close> that passed \<open>vs\<close> and stopped at \<open>t\<close>.\<close>

definition recovered :: "store \<Rightarrow> ref list \<Rightarrow> ref \<Rightarrow> store" where
  "recovered h vs t =
     (\<lambda>n. if n = t then (h t)\<lparr>children := children (h t) @ orphans_of h vs\<rparr>
          else if n \<in> set (orphans_of h vs) then (h n)\<lparr>parent := Some t, children := []\<rparr>
          else if n \<in> set vs then (h n)\<lparr>children := []\<rparr>
          else h n)"

text \<open>
  The order of the orphan list as the specification words it, "outer-to-inner": the
  children of the visited node nearest the target first, those of the cursor last.
\<close>

definition orphans_outer_to_inner :: "store \<Rightarrow> ref list \<Rightarrow> ref list" where
  "orphans_outer_to_inner h vs = concat (map (\<lambda>v. children (h v)) (rev vs))"

subsection \<open>Event streams used as examples\<close>

definition em_in_span_in_div :: "event list" where
  "em_in_span_in_div =
     [Starttag ''div'' [], Starttag ''span'' [], Starttag ''em'' [], Data ''x'', Endtag ''div'']"

definition a_b_c_d :: "event list" where
  "a_b_c_d =
     [Starttag ''a'' [], Starttag ''b'' [], Starttag ''c'' [], Starttag ''d'' [], Endtag ''d'']"

definition span_in_two_divs :: "event list" where
  "span_in_two_divs =
     [Starttag ''div'' [], Starttag ''div'' [], Starttag ''span'' [],
      Endtag ''span'', Endtag ''div'', Endtag ''div'']"

section \<open>Rules for running the model on concrete inputs\<close>

lemmas build_simps =
  feed_def CustomHTMLParser_init_def handle_starttag_def handle_endtag_def handle_data_def
  handle_comment_def dict_def HtmlTag_init_def endtag_loop.simps reparent_def Let_def attr_of_def

lemmas select_simps =
  HtmlTag_select_def Selector_parse_def Selector_init_def clean_attrs_def clean_def
  clean_finish_def
  clean_cls_def clean_id_def clean_tag_def cls_sep_def id_sep_def attr_sep_def sep_def
  truthy_def slice_def select_loop.simps check_html_tag_def check_tag_def check_id_def
  check_cls_def check_attrs_def

lemmas path_simps =
  HtmlParser_init_def HtmlParser_select_def get_tags_def get_tag_def get_path_def
  get_path_loop.simps py_int_def strip_def is_space_def digits_def digit_val_def getitem_def
  str.simps

section \<open>The loop of \<^verbatim>\<open>handle_endtag\<close> and the shape of built trees\<close>

lemma chain_parent_cong:
  "(\<And>n. parent (h' n) = parent (h n)) \<Longrightarrow> chain h' cur vs e = chain h cur vs e"
  by (induction vs arbitrary: cur) simp_all

lemma endtag_loop_None [simp]: "endtag_loop h None tg tags = Some (Inl AttributeError)"
  by (subst endtag_loop.simps) simp

lemma endtag_loop_hit: "tag (h c) = tg \<Longrightarrow> endtag_loop h (Some c) tg tags = Some (Inr (h, c, tags))"
  by (subst endtag_loop.simps) simp

lemma endtag_loop_miss:
  "tag (h c) \<noteq> tg \<Longrightarrow> endtag_loop h (Some c) tg tags =
     endtag_loop (h(c := (h c)\<lparr>children := []\<rparr>)) (parent (h c)) tg (tags @ children (h c))"
  by (subst endtag_loop.simps) simp

lemma endtag_loop_unmatched:
  "chain h cur vs None \<Longrightarrow> \<forall>v\<in>set vs. tag (h v) \<noteq> tg \<Longrightarrow>
   endtag_loop h cur tg tags = Some (Inl AttributeError)"
proof (induction vs arbitrary: h cur tags)
  case Nil
  then show ?case by simp
next
  case (Cons v vs)
  let ?h = "h(v := (h v)\<lparr>children := []\<rparr>)"
  from Cons.prems have cur: "cur = Some v" and ch: "chain h (parent (h v)) vs None"
    and miss: "tag (h v) \<noteq> tg" by simp_all
  have "chain ?h (parent (h v)) vs None"
    using ch by (subst chain_parent_cong [of ?h h]) simp_all
  moreover have "\<forall>x\<in>set vs. tag (?h x) \<noteq> tg" using Cons.prems(2) by simp
  ultimately have "endtag_loop ?h (parent (h v)) tg (tags @ children (h v)) = Some (Inl AttributeError)"
    by (rule Cons.IH)
  then show ?case using cur miss by (simp add: endtag_loop_miss)
qed

lemma endtag_loop_matched:
  "chain h cur vs (Some t) \<Longrightarrow> \<forall>v\<in>set vs. tag (h v) \<noteq> tg \<Longrightarrow> tag (h t) = tg \<Longrightarrow> distinct vs \<Longrightarrow>
   endtag_loop h cur tg tags =
     Some (Inr (clear_children vs h, t, tags @ orphans_of h vs))"
proof (induction vs arbitrary: h cur tags)
  case Nil
  then show ?case by (simp add: endtag_loop_hit clear_children_def orphans_of_def)
next
  case (Cons v vs)
  let ?h = "h(v := (h v)\<lparr>children := []\<rparr>)"
  from Cons.prems have cur: "cur = Some v" and ch: "chain h (parent (h v)) vs (Some t)"
    and miss: "tag (h v) \<noteq> tg" and nin: "v \<notin> set vs" and d: "distinct vs" by simp_all
  have 1: "chain ?h (parent (h v)) vs (Some t)"
    using ch by (subst chain_parent_cong [of ?h h]) simp_all
  have 2: "\<forall>x\<in>set vs. tag (?h x) \<noteq> tg" using Cons.prems(2) by simp
  have 3: "tag (?h t) = tg" using Cons.prems(3) by auto
  have 4: "clear_children vs ?h = clear_children (v # vs) h"
    by (rule ext) (simp add: clear_children_def)
  have 5: "orphans_of ?h vs = orphans_of h vs"
    unfolding orphans_of_def using nin by (intro arg_cong [where f = concat] map_cong) auto
  have ih: "endtag_loop ?h (parent (h v)) tg (tags @ children (h v)) =
      Some (Inr (clear_children vs ?h, t, (tags @ children (h v)) @ orphans_of ?h vs))"
    by (rule Cons.IH [OF 1 2 3 d])
  have "endtag_loop h cur tg tags = endtag_loop ?h (parent (h v)) tg (tags @ children (h v))"
    unfolding cur using miss by (rule endtag_loop_miss)
  also note ih
  also have "Some (Inr (clear_children vs ?h, t, (tags @ children (h v)) @ orphans_of ?h vs)) =
      Some (Inr (clear_children (v # vs) h, t, tags @ orphans_of h (v # vs)))"
    unfolding 4 5 by (simp add: orphans_of_def)
  finally show ?case .
qed

lemma fold_reparent:
  "fold (reparent c) ts h = (\<lambda>n. if n \<in> set ts then (h n)\<lparr>parent := Some c, children := []\<rparr> else h n)"
proof (induction ts arbitrary: h)
  case Nil
  then show ?case by simp
next
  case (Cons x xs)
  show ?case by (rule ext) (simp add: Cons.IH, simp add: reparent_def)
qed

lemma chain_above:
  "ordered h N \<Longrightarrow> chain h (Some c) vs e \<Longrightarrow> (\<forall>x\<in>set vs. x \<le> c) \<and> (\<forall>t. e = Some t \<longrightarrow> t \<le> c)"
proof (induction vs arbitrary: c)
  case Nil
  then show ?case by auto
next
  case (Cons v vs)
  then have cv: "c = v" and ch: "chain h (parent (h v)) vs e" by simp_all
  show ?case
  proof (cases "parent (h v)")
    case None
    with ch show ?thesis using cv by (cases vs) simp_all
  next
    case (Some p)
    with Cons.prems(1) have "p < v" by (auto simp: ordered_def)
    moreover from ch Some have "chain h (Some p) vs e" by simp
    from Cons.IH [OF Cons.prems(1) this]
    have "(\<forall>x\<in>set vs. x \<le> p) \<and> (\<forall>t. e = Some t \<longrightarrow> t \<le> p)" .
    ultimately show ?thesis using cv by fastforce
  qed
qed

lemma chain_distinct:
  "ordered h N \<Longrightarrow> chain h cur vs e \<Longrightarrow> distinct vs \<and> (\<forall>t. e = Some t \<longrightarrow> (\<forall>x\<in>set vs. t < x))"
proof (induction vs arbitrary: cur)
  case Nil
  then show ?case by simp
next
  case (Cons v vs)
  then have cv: "cur = Some v" and ch: "chain h (parent (h v)) vs e" by simp_all
  show ?case
  proof (cases "parent (h v)")
    case None
    with ch show ?thesis using cv by (cases vs) simp_all
  next
    case (Some p)
    with Cons.prems(1) have pv: "p < v" by (auto simp: ordered_def)
    from ch Some have "chain h (Some p) vs e" by simp
    from chain_above [OF Cons.prems(1) this]
    have ab: "(\<forall>x\<in>set vs. x \<le> p) \<and> (\<forall>t. e = Some t \<longrightarrow> t \<le> p)" .
    from Cons.IH [OF Cons.prems(1) ch]
    have ih: "distinct vs \<and> (\<forall>t. e = Some t \<longrightarrow> (\<forall>x\<in>set vs. t < x))" .
    show ?thesis using pv ab ih by fastforce
  qed
qed

lemma walk_cases:
  "ordered h N \<Longrightarrow>
   (\<exists>vs. chain h cur vs None \<and> (\<forall>v\<in>set vs. tag (h v) \<noteq> tg)) \<or>
   (\<exists>vs t. chain h cur vs (Some t) \<and> (\<forall>v\<in>set vs. tag (h v) \<noteq> tg) \<and> tag (h t) = tg)"
proof (cases cur)
  case None
  then have "chain h cur [] None" by simp
  then show ?thesis by fastforce
next
  case (Some c)
  assume ord: "ordered h N"
  have "(\<exists>vs. chain h (Some c) vs None \<and> (\<forall>v\<in>set vs. tag (h v) \<noteq> tg)) \<or>
   (\<exists>vs t. chain h (Some c) vs (Some t) \<and> (\<forall>v\<in>set vs. tag (h v) \<noteq> tg) \<and> tag (h t) = tg)"
  proof (induction c rule: less_induct)
    case (less c)
    show ?case
    proof (cases "tag (h c) = tg")
      case True
      then have "chain h (Some c) [] (Some c) \<and> (\<forall>v\<in>set []. tag (h v) \<noteq> tg) \<and> tag (h c) = tg" by simp
      then show ?thesis by blast
    next
      case False
      show ?thesis
      proof (cases "parent (h c)")
        case None
        then have "chain h (Some c) [c] None \<and> (\<forall>v\<in>set [c]. tag (h v) \<noteq> tg)" using False by simp
        then show ?thesis by blast
      next
        case (Some p)
        with ord have "p < c" by (auto simp: ordered_def)
        from less.IH [OF this] show ?thesis
        proof
          assume "\<exists>vs. chain h (Some p) vs None \<and> (\<forall>v\<in>set vs. tag (h v) \<noteq> tg)"
          then obtain vs where "chain h (Some p) vs None" "\<forall>v\<in>set vs. tag (h v) \<noteq> tg" by blast
          then have "chain h (Some c) (c # vs) None \<and> (\<forall>v\<in>set (c # vs). tag (h v) \<noteq> tg)"
            using Some False by simp
          then show ?thesis by blast
        next
          assume "\<exists>vs t. chain h (Some p) vs (Some t) \<and> (\<forall>v\<in>set vs. tag (h v) \<noteq> tg) \<and> tag (h t) = tg"
          then obtain vs t where "chain h (Some p) vs (Some t)" "\<forall>v\<in>set vs. tag (h v) \<noteq> tg" "tag (h t) = tg" by blast
          then have "chain h (Some c) (c # vs) (Some t) \<and> (\<forall>v\<in>set (c # vs). tag (h v) \<noteq> tg) \<and> tag (h t) = tg"
            using Some False by simp
          then show ?thesis by blast
        qed
      qed
    qed
  qed
  then show ?thesis using Some by simp
qed


lemma orphan_facts:
  assumes pc: "parent_of_child h" and ord: "ordered h N"
    and ch: "chain h cur vs (Some t)" and o: "x \<in> set (orphans_of h vs)"
  shows "\<exists>v\<in>set vs. parent (h x) = Some v \<and> v < x \<and> x < N \<and> t < v"
proof -
  from o obtain v where v: "v \<in> set vs" and xv: "x \<in> set (children (h v))"
    by (auto simp: orphans_of_def)
  from pc xv have p: "parent (h x) = Some v" by (simp add: parent_of_child_def)
  with ord have "v < x \<and> x < N" by (simp add: ordered_def)
  moreover from chain_distinct [OF ord ch] v have "t < v" by simp
  ultimately show ?thesis using v p by blast
qed

lemma handle_endtag_matched:
  assumes inv: "tree_inv s"
    and ch: "chain (heap s) (cur_tag s) vs (Some t)"
    and miss: "\<forall>v\<in>set vs. tag (heap s v) \<noteq> tg" and hit: "tag (heap s t) = tg"
  shows "handle_endtag tg s =
     Some (Inr (s\<lparr>heap := recovered (heap s) vs t, cur_tag := parent (heap s t)\<rparr>))"
proof -
  let ?h = "heap s"
  from inv have pc: "parent_of_child ?h" and ord: "ordered ?h (nxt s)"
    by (simp_all add: tree_inv_def)
  from chain_distinct [OF ord ch] have d: "distinct vs" and tv: "t \<notin> set vs" by auto
  have to: "t \<notin> set (orphans_of ?h vs)"
    using orphan_facts [OF pc ord ch, of t] by auto
  have loop: "endtag_loop ?h (cur_tag s) tg [] = Some (Inr (clear_children vs ?h, t, orphans_of ?h vs))"
    using endtag_loop_matched [OF ch miss hit d, of "[]"] by simp
  let ?h1 = "fold (reparent t) (orphans_of ?h vs) (clear_children vs ?h)"
  let ?h2 = "?h1(t := (?h1 t)\<lparr>children := children (?h1 t) @ orphans_of ?h vs\<rparr>)"
  have h1t: "?h1 t = ?h t" using tv to by (simp add: fold_reparent clear_children_def)
  have h2: "?h2 = recovered ?h vs t"
    unfolding h1t by (rule ext) (simp add: recovered_def fold_reparent clear_children_def)
  have pt: "parent (recovered ?h vs t t) = parent (?h t)" by (simp add: recovered_def)
  have "handle_endtag tg s = Some (Inr (s\<lparr>heap := ?h2, cur_tag := parent (?h2 t)\<rparr>))"
    unfolding handle_endtag_def loop by (simp add: Let_def)
  then show ?thesis unfolding h2 pt .
qed


lemma tree_inv_init: "tree_inv CustomHTMLParser_init"
  by (simp add: tree_inv_def CustomHTMLParser_init_def parent_of_child_def ordered_def HtmlTag_init_def)

lemma handle_starttag_shape:
  assumes "handle_starttag tg ats s = Inr s'"
  shows "\<exists>c d. cur_tag s = Some c \<and>
     s' = s\<lparr>heap := ((heap s)(nxt s := HtmlTag_init tg d (Some c)))
                  (c := (((heap s)(nxt s := HtmlTag_init tg d (Some c))) c)
                         \<lparr>children := children (((heap s)(nxt s := HtmlTag_init tg d (Some c))) c) @ [nxt s]\<rparr>),
             nxt := Suc (nxt s), cur_tag := Some (nxt s)\<rparr>"
  using assms unfolding handle_starttag_def Let_def
  by (auto split: option.splits sum.splits attr_value.splits)

lemma tree_inv_starttag:
  assumes inv: "tree_inv s" and st: "handle_starttag tg ats s = Inr s'"
  shows "tree_inv s'"
proof -
  let ?h = "heap s" and ?t = "nxt s"
  from handle_starttag_shape [OF st] obtain c d where c: "cur_tag s = Some c"
    and s': "s' = s\<lparr>heap := (?h(?t := HtmlTag_init tg d (Some c)))
                  (c := ((?h(?t := HtmlTag_init tg d (Some c))) c)
                         \<lparr>children := children ((?h(?t := HtmlTag_init tg d (Some c))) c) @ [?t]\<rparr>),
             nxt := Suc ?t, cur_tag := Some ?t\<rparr>" by blast
  from inv have r: "root s = 0" and pc: "parent_of_child ?h" and ord: "ordered ?h ?t"
    and cur: "\<forall>c. cur_tag s = Some c \<longrightarrow> c < ?t" by (simp_all add: tree_inv_def)
  from cur c have ct: "c < ?t" by simp
  have fresh: "\<And>p x. x \<in> set (children (?h p)) \<Longrightarrow> x < ?t \<and> p < x"
    using pc ord by (auto simp: parent_of_child_def ordered_def)
  define h' where "h' = (?h(?t := HtmlTag_init tg d (Some c)))
                  (c := (?h c)\<lparr>children := children (?h c) @ [?t]\<rparr>)"
  have heap': "heap s' = h'" using ct by (simp add: s' h'_def)
  have par: "\<And>n. parent (h' n) = (if n = ?t then Some c else parent (?h n))"
    using ct by (simp add: h'_def HtmlTag_init_def)
  have chi: "\<And>n. children (h' n) = (if n = c then children (?h c) @ [?t] else if n = ?t then [] else children (?h n))"
    using ct by (simp add: h'_def HtmlTag_init_def)
  have 1: "parent_of_child h'"
    unfolding parent_of_child_def
  proof (intro allI impI)
    fix p x assume x: "x \<in> set (children (h' p))"
    show "parent (h' x) = Some p"
    proof (cases "x = ?t")
      case True
      with x fresh have "p = c" by (auto simp: chi split: if_splits)
      with True show ?thesis by (simp add: par)
    next
      case False
      with x have "x \<in> set (children (?h p))" by (auto simp: chi split: if_splits)
      with pc have "parent (?h x) = Some p" by (simp add: parent_of_child_def)
      with False show ?thesis by (simp add: par)
    qed
  qed
  have 2: "ordered h' (Suc ?t)"
    unfolding ordered_def using ord ct by (auto simp: par ordered_def less_Suc_eq split: if_splits)
  show ?thesis
    unfolding tree_inv_def heap' using r 1 2 by (simp add: s')
qed

lemma tree_inv_same_shape:
  assumes "tree_inv s" "root s' = root s" "nxt s' = nxt s" "cur_tag s' = cur_tag s"
    and "\<And>n. parent (heap s' n) = parent (heap s n)"
    and "\<And>n. children (heap s' n) = children (heap s n)"
  shows "tree_inv s'"
  using assms by (simp add: tree_inv_def parent_of_child_def ordered_def)

lemma tree_inv_data: "tree_inv s \<Longrightarrow> handle_data d s = Inr s' \<Longrightarrow> tree_inv s'"
  by (erule tree_inv_same_shape) (auto simp: handle_data_def split: option.splits)

lemma tree_inv_comment: "tree_inv s \<Longrightarrow> handle_comment d s = Inr s' \<Longrightarrow> tree_inv s'"
  by (erule tree_inv_same_shape) (auto simp: handle_comment_def split: option.splits)

lemma tree_inv_recovered:
  assumes inv: "tree_inv s"
    and ch: "chain (heap s) (cur_tag s) vs (Some t)"
  shows "tree_inv (s\<lparr>heap := recovered (heap s) vs t, cur_tag := parent (heap s t)\<rparr>)"
proof -
  let ?h = "heap s" and ?N = "nxt s"
  let ?os = "orphans_of ?h vs"
  from inv have r: "root s = 0" and pc: "parent_of_child ?h" and ord: "ordered ?h ?N"
    by (simp_all add: tree_inv_def)
  note of = orphan_facts [OF pc ord ch]
  from chain_distinct [OF ord ch] have tv: "t \<notin> set vs" by auto
  have to: "t \<notin> set ?os" using of [of t] by auto
  define h' where "h' = recovered ?h vs t"
  have par: "\<And>n. parent (h' n) = (if n \<in> set ?os then Some t else parent (?h n))"
    using to by (simp add: h'_def recovered_def)
  have chi: "\<And>n. children (h' n) = (if n = t then children (?h t) @ ?os
        else if n \<in> set ?os \<or> n \<in> set vs then [] else children (?h n))"
    by (simp add: h'_def recovered_def)
  have 1: "parent_of_child h'"
    unfolding parent_of_child_def
  proof (intro allI impI)
    fix p x assume x: "x \<in> set (children (h' p))"
    show "parent (h' x) = Some p"
    proof (cases "x \<in> set ?os")
      case True
      from of [OF True] obtain v where v: "v \<in> set vs" "parent (?h x) = Some v" by blast
      have "p = t"
      proof (rule ccontr)
        assume "p \<noteq> t"
        with x have "x \<in> set (children (?h p))" "p \<notin> set vs" by (auto simp: chi split: if_splits)
        with pc v show False by (auto simp: parent_of_child_def)
      qed
      with True show ?thesis by (simp add: par)
    next
      case False
      with x have "x \<in> set (children (?h p))" by (auto simp: chi split: if_splits)
      with pc have "parent (?h x) = Some p" by (simp add: parent_of_child_def)
      with False show ?thesis by (simp add: par)
    qed
  qed
  have 2: "ordered h' ?N"
    unfolding ordered_def
  proof (intro allI impI)
    fix n p assume p: "parent (h' n) = Some p"
    show "p < n \<and> n < ?N"
    proof (cases "n \<in> set ?os")
      case True
      with p have "p = t" by (simp add: par)
      with of [OF True] show ?thesis by auto
    next
      case False
      with p ord show ?thesis by (simp add: par ordered_def)
    qed
  qed
  have 3: "\<forall>c. parent (?h t) = Some c \<longrightarrow> c < ?N"
    using ord by (auto simp: ordered_def dest: less_trans)
  show ?thesis
    unfolding tree_inv_def using r 1 2 3 by (simp add: h'_def)
qed

lemma handle_endtag_cases:
  assumes inv: "tree_inv s"
  shows "handle_endtag tg s = Some (Inl AttributeError) \<or>
    (\<exists>vs t. chain (heap s) (cur_tag s) vs (Some t) \<and> (\<forall>v\<in>set vs. tag (heap s v) \<noteq> tg) \<and>
        tag (heap s t) = tg \<and>
        handle_endtag tg s = Some (Inr (s\<lparr>heap := recovered (heap s) vs t, cur_tag := parent (heap s t)\<rparr>)))"
proof -
  from inv have ord: "ordered (heap s) (nxt s)" by (simp add: tree_inv_def)
  from walk_cases [OF ord, of "cur_tag s" tg] show ?thesis
  proof
    assume "\<exists>vs. chain (heap s) (cur_tag s) vs None \<and> (\<forall>v\<in>set vs. tag (heap s v) \<noteq> tg)"
    then obtain vs where "chain (heap s) (cur_tag s) vs None" "\<forall>v\<in>set vs. tag (heap s v) \<noteq> tg"
      by blast
    then have "endtag_loop (heap s) (cur_tag s) tg [] = Some (Inl AttributeError)"
      by (rule endtag_loop_unmatched)
    then show ?thesis by (simp add: handle_endtag_def)
  next
    assume "\<exists>vs t. chain (heap s) (cur_tag s) vs (Some t) \<and> (\<forall>v\<in>set vs. tag (heap s v) \<noteq> tg) \<and> tag (heap s t) = tg"
    then obtain vs t where a: "chain (heap s) (cur_tag s) vs (Some t)"
      "\<forall>v\<in>set vs. tag (heap s v) \<noteq> tg" "tag (heap s t) = tg" by blast
    from handle_endtag_matched [OF inv a] a show ?thesis by blast
  qed
qed

lemma tree_inv_endtag:
  assumes inv: "tree_inv s" and e: "handle_endtag tg s = Some (Inr s')"
  shows "tree_inv s'"
  using handle_endtag_cases [OF inv, of tg] e tree_inv_recovered [OF inv] by auto

text \<open>On a state of this shape every handler returns: the builder never runs forever.\<close>

lemma handle_total: "tree_inv s \<Longrightarrow> \<exists>r. handle e s = Some r"
  using handle_endtag_cases [of s] by (cases e) auto

lemma tree_inv_handle: "tree_inv s \<Longrightarrow> handle e s = Some (Inr s') \<Longrightarrow> tree_inv s'"
  by (cases e) (auto intro: tree_inv_starttag tree_inv_endtag tree_inv_data tree_inv_comment)

lemma feed_from_total: "tree_inv s \<Longrightarrow> \<exists>r. feed_from s es = Some r"
proof (induction es arbitrary: s)
  case Nil
  then show ?case by simp
next
  case (Cons e es)
  from handle_total [OF Cons.prems, of e] obtain r where r: "handle e s = Some r" by blast
  show ?case
  proof (cases r)
    case (Inl err)
    with r show ?thesis by simp
  next
    case (Inr s')
    with r Cons.prems have "tree_inv s'" by (auto intro: tree_inv_handle)
    from Cons.IH [OF this] r Inr show ?thesis by simp
  qed
qed

lemma tree_inv_feed_from: "tree_inv s \<Longrightarrow> feed_from s es = Some (Inr s') \<Longrightarrow> tree_inv s'"
proof (induction es arbitrary: s)
  case Nil
  then show ?case by simp
next
  case (Cons e es)
  from Cons.prems(2) obtain s1 where h: "handle e s = Some (Inr s1)" and f: "feed_from s1 es = Some (Inr s')"
    by (auto split: option.splits sum.splits)
  from tree_inv_handle [OF Cons.prems(1) h] have "tree_inv s1" .
  from Cons.IH [OF this f] show ?case .
qed

lemma feed_total: "\<exists>r. feed es = Some r"
  unfolding feed_def by (rule feed_from_total [OF tree_inv_init])

lemma tree_inv_feed: "feed es = Some (Inr s) \<Longrightarrow> tree_inv s"
  unfolding feed_def by (rule tree_inv_feed_from [OF tree_inv_init])

lemma feed_from_append:
  "feed_from s (es @ es') = (case feed_from s es of None \<Rightarrow> None | Some (Inl e) \<Rightarrow> Some (Inl e) | Some (Inr s1) \<Rightarrow> feed_from s1 es')"
  by (induction es arbitrary: s) (auto split: option.splits sum.splits)


section \<open>Properties of \<^verbatim>\<open>handle_endtag\<close>\<close>

text \<open>
  C2, as stated, fails on the order of the orphan list. In the tree of
  \<^verbatim>\<open><a><b><c><d></d>\<close> the cursor is \<^verbatim>\<open>c\<close>; closing \<^verbatim>\<open>a\<close> passes \<^verbatim>\<open>c\<close> (child list
  \<^verbatim>\<open>[d]\<close>) and then \<^verbatim>\<open>b\<close> (child list \<^verbatim>\<open>[c]\<close>). Outer-to-inner, the orphans would be
  \<^verbatim>\<open>c\<close> then \<^verbatim>\<open>d\<close>; the code leaves \<^verbatim>\<open>a\<close> with the children \<^verbatim>\<open>b\<close>, \<^verbatim>\<open>d\<close>, \<^verbatim>\<open>c\<close>.
\<close>

theorem C2_counterexample:
  "case feed a_b_c_d of
     Some (Inr s) \<Rightarrow>
       (case handle_endtag ''a'' s of
          Some (Inr s') \<Rightarrow>
            chain (heap s) (cur_tag s) [3, 2] (Some 1) \<and> tag (heap s 1) = ''a'' \<and>
            children (heap s 1) @ orphans_outer_to_inner (heap s) [3, 2] = [2, 3, 4] \<and>
            children (heap s' 1) = [2, 4, 3]
        | _ \<Rightarrow> False)
   | _ \<Rightarrow> False"
  by (simp add: a_b_c_d_def build_simps orphans_outer_to_inner_def)

text \<open>
  C2, amended: when the builder has consumed any event stream and the walk from the
  cursor along \<^verbatim>\<open>parent\<close> passes the nodes \<open>vs\<close>, none named \<open>tg\<close>, and then stands at
  a node \<open>t\<close> named \<open>tg\<close>, then \<^verbatim>\<open>handle_endtag\<close> returns, and in the new tree every
  node of \<open>vs\<close> is childless, every orphan (the child lists of \<open>vs\<close>, concatenated in
  the order the nodes are passed: the cursor's children first, inner-to-outer) has
  \<open>t\<close> as parent and no children, the child list of \<open>t\<close> is its old one followed by
  the orphans in that order, the cursor is the parent of \<open>t\<close>, and no other node
  changes.
\<close>

theorem C2_close_collects_orphans:
  assumes "feed es = Some (Inr s)"
    and "chain (heap s) (cur_tag s) vs (Some t)"
    and "\<forall>v\<in>set vs. tag (heap s v) \<noteq> tg" and "tag (heap s t) = tg"
  shows "\<exists>s'. handle_endtag tg s = Some (Inr s') \<and>
      (\<forall>v\<in>set vs. children (heap s' v) = []) \<and>
      (\<forall>x\<in>set (orphans_of (heap s) vs). parent (heap s' x) = Some t \<and> children (heap s' x) = []) \<and>
      children (heap s' t) = children (heap s t) @ orphans_of (heap s) vs \<and>
      cur_tag s' = parent (heap s t) \<and>
      (\<forall>n. n \<noteq> t \<and> n \<notin> set vs \<and> n \<notin> set (orphans_of (heap s) vs) \<longrightarrow> heap s' n = heap s n)"
proof -
  from assms(1) have inv: "tree_inv s" by (rule tree_inv_feed)
  then have pc: "parent_of_child (heap s)" and ord: "ordered (heap s) (nxt s)"
    by (simp_all add: tree_inv_def)
  from chain_distinct [OF ord assms(2)] have tv: "t \<notin> set vs" by auto
  have to: "t \<notin> set (orphans_of (heap s) vs)"
    using orphan_facts [OF pc ord assms(2), of t] by auto
  let ?s' = "s\<lparr>heap := recovered (heap s) vs t, cur_tag := parent (heap s t)\<rparr>"
  have "handle_endtag tg s = Some (Inr ?s')"
    using inv assms(2-4) by (rule handle_endtag_matched)
  moreover have "\<forall>v\<in>set vs. children (heap ?s' v) = []"
    using tv by (auto simp: recovered_def)
  moreover have "\<forall>x\<in>set (orphans_of (heap s) vs). parent (heap ?s' x) = Some t \<and> children (heap ?s' x) = []"
    using to by (auto simp: recovered_def)
  moreover have "children (heap ?s' t) = children (heap s t) @ orphans_of (heap s) vs"
    by (simp add: recovered_def)
  moreover have "cur_tag ?s' = parent (heap s t)" by simp
  moreover have "\<forall>n. n \<noteq> t \<and> n \<notin> set vs \<and> n \<notin> set (orphans_of (heap s) vs) \<longrightarrow> heap ?s' n = heap s n"
    by (simp add: recovered_def)
  ultimately show ?thesis by blast
qed

text \<open>
  C2, witness: the stream \<^verbatim>\<open><a><b><c><d></d>\<close> followed by \<^verbatim>\<open></a>\<close>.
\<close>

theorem C2_witness:
  "\<exists>s s'. feed a_b_c_d = Some (Inr s) \<and> chain (heap s) (cur_tag s) [3, 2] (Some 1) \<and>
      tag (heap s 3) \<noteq> ''a'' \<and> tag (heap s 2) \<noteq> ''a'' \<and> tag (heap s 1) = ''a'' \<and>
      children (heap s 3) = [4] \<and> children (heap s 2) = [3] \<and> children (heap s 1) = [2] \<and>
      handle_endtag ''a'' s = Some (Inr s') \<and>
      children (heap s' 3) = [] \<and> children (heap s' 2) = [] \<and>
      parent (heap s' 4) = Some 1 \<and> children (heap s' 4) = [] \<and> parent (heap s' 3) = Some 1 \<and>
      children (heap s' 1) = [2, 4, 3] \<and> cur_tag s' = Some 0"
proof -
  obtain s where s: "feed a_b_c_d = Some (Inr s)"
    and c: "chain (heap s) (cur_tag s) [3, 2] (Some 1)"
    and t: "tag (heap s 3) \<noteq> ''a''" "tag (heap s 2) \<noteq> ''a''" "tag (heap s 1) = ''a''"
    and k: "children (heap s 3) = [4]" "children (heap s 2) = [3]" "children (heap s 1) = [2]"
    and p: "parent (heap s 1) = Some 0"
    by (simp add: a_b_c_d_def build_simps)
  from t have m: "\<forall>v\<in>set [3, 2]. tag (heap s v) \<noteq> ''a''" by simp
  have o: "orphans_of (heap s) [3, 2] = [4, 3]" by (simp add: orphans_of_def k)
  from C2_close_collects_orphans [OF s c m t(3)] obtain s' where
    h: "handle_endtag ''a'' s = Some (Inr s')"
    and v: "\<forall>v\<in>set [3, 2]. children (heap s' v) = []"
    and x: "\<forall>x\<in>set [4, 3]. parent (heap s' x) = Some 1 \<and> children (heap s' x) = []"
    and y: "children (heap s' 1) = children (heap s 1) @ [4, 3]"
    and z: "cur_tag s' = parent (heap s 1)"
    unfolding o by blast
  from v x y z k p have
    "children (heap s' 3) = [] \<and> children (heap s' 2) = [] \<and>
      parent (heap s' 4) = Some 1 \<and> children (heap s' 4) = [] \<and> parent (heap s' 3) = Some 1 \<and>
      children (heap s' 1) = [2, 4, 3] \<and> cur_tag s' = Some 0"
    by simp
  with s c t k h show ?thesis by blast
qed

text \<open>
  C3: when the walk from the cursor along \<^verbatim>\<open>parent\<close> passes the nodes \<open>vs\<close>, none
  named \<open>tg\<close>, and then leaves the tree above the root (the cursor is \<^verbatim>\<open>None\<close>),
  \<^verbatim>\<open>handle_endtag\<close> raises (the \<^verbatim>\<open>AttributeError\<close> of reading \<^verbatim>\<open>.tag\<close> of \<^verbatim>\<open>None\<close>), and
  so does \<^verbatim>\<open>feed\<close> on every stream that continues with this closing tag: no tree
  is built.
\<close>

theorem C3_unmatched_close_fails:
  assumes "feed es = Some (Inr s)"
    and "chain (heap s) (cur_tag s) vs None"
    and "\<forall>v\<in>set vs. tag (heap s v) \<noteq> tg"
  shows "handle_endtag tg s = Some (Inl AttributeError) \<and>
         feed (es @ Endtag tg # es') = Some (Inl AttributeError)"
proof -
  from assms(2,3) have "endtag_loop (heap s) (cur_tag s) tg [] = Some (Inl AttributeError)"
    by (rule endtag_loop_unmatched)
  then have h: "handle_endtag tg s = Some (Inl AttributeError)" by (simp add: handle_endtag_def)
  with assms(1) show ?thesis by (simp add: feed_def feed_from_append)
qed

text \<open>
  C3, witness: \<^verbatim>\<open></span>\<close> after \<^verbatim>\<open><div>\<close>; the walk passes the \<^verbatim>\<open>div\<close> node and the root.
\<close>

theorem C3_witness:
  "\<exists>s. feed [Starttag ''div'' []] = Some (Inr s) \<and> chain (heap s) (cur_tag s) [1, 0] None \<and>
       tag (heap s 1) \<noteq> ''span'' \<and> tag (heap s 0) \<noteq> ''span'' \<and>
       handle_endtag ''span'' s = Some (Inl AttributeError) \<and>
       feed ([Starttag ''div'' []] @ Endtag ''span'' # [Data ''x'']) = Some (Inl AttributeError)"
proof -
  obtain s where s: "feed [Starttag ''div'' []] = Some (Inr s)"
    and c: "chain (heap s) (cur_tag s) [1, 0] None"
    and t: "tag (heap s 1) \<noteq> ''span''" "tag (heap s 0) \<noteq> ''span''"
    by (simp add: build_simps)
  from t have "\<forall>v\<in>set [1, 0]. tag (heap s v) \<noteq> ''span''" by simp
  from C3_unmatched_close_fails [OF s c this, of "[Data ''x'']"] s c t show ?thesis by blast
qed

section \<open>Properties of the selector parser\<close>

lemma segments_skip:
  "\<forall>x\<in>set seg. x \<noteq> a \<Longrightarrow> segments a stops (seg @ cs) = segments a stops cs"
  by (induction seg) simp_all

lemma segments_absent: "a \<notin> set cs \<Longrightarrow> segments a stops cs = []"
  by (induction cs) auto

lemma segments_open:
  assumes "\<forall>x\<in>set seg. x \<notin> set stops \<and> x \<noteq> a"
  shows "segments a stops (a # seg) = [seg]"
proof -
  have tw: "takeWhile (\<lambda>x. x \<notin> set stops) seg = seg" using assms by (simp add: takeWhile_eq_all_conv)
  have ab: "segments a stops seg = []" using assms by (intro segments_absent) auto
  have "a \<notin> set seg" using assms by auto
  then show ?thesis by (simp add: tw ab)
qed

lemma segments_closed:
  assumes "\<forall>x\<in>set seg. x \<notin> set stops \<and> x \<noteq> a" and "x \<in> set stops"
  shows "segments a stops (a # seg @ x # xs) = seg # segments a stops (x # xs)"
proof -
  have tw: "takeWhile (\<lambda>x. x \<notin> set stops) (seg @ x # xs) = seg"
    using assms by (simp add: takeWhile_append2)
  have sk: "segments a stops (seg @ x # xs) = segments a stops (x # xs)"
    using assms by (intro segments_skip) auto
  have "a \<notin> set seg" using assms by auto
  then show ?thesis unfolding segments.simps(2) [of a stops a] tw sk by simp
qed

lemma segments_restart:
  assumes "\<forall>x\<in>set seg. x \<notin> set stops \<and> x \<noteq> a" and "a \<notin> set stops"
  shows "segments a stops (a # seg @ a # xs) = segments a stops (a # xs)"
proof -
  have tw: "takeWhile (\<lambda>x. x \<notin> set stops) (seg @ a # xs) = seg @ a # takeWhile (\<lambda>x. x \<notin> set stops) xs"
    using assms by (simp add: takeWhile_append2)
  have sk: "segments a stops (seg @ a # xs) = segments a stops (a # xs)"
    using assms by (intro segments_skip) auto
  show ?thesis unfolding segments.simps(2) [of a stops a "seg @ a # xs"] tw sk by simp
qed

lemma slice_middle: "slice (pre @ a # seg @ cs) (length pre + 1) (length pre + 1 + length seg) = seg"
  by (simp add: slice_def)

lemma clean_loop_segments:
  "(\<forall>pre acc. c = pre @ cs \<and> (pre = [] \<longrightarrow> take 1 cs \<noteq> [a]) \<longrightarrow>
       clean_finish c (clean_loop c a stops None acc (length pre) cs) = acc @ segments a stops cs) \<and>
   (\<forall>pre seg acc. c = pre @ a # seg @ cs \<and> pre \<noteq> [] \<and> (\<forall>x\<in>set seg. x \<notin> set stops \<and> x \<noteq> a) \<longrightarrow>
       clean_finish c (clean_loop c a stops (Some (length pre)) acc (length pre + 1 + length seg) cs) =
         acc @ segments a stops (a # seg @ cs))"
proof (induction cs)
  case Nil
  show ?case by (auto simp: clean_finish_def segments_open simp del: segments.simps(2))
next
  case (Cons x xs)
  note A = Cons.IH [THEN conjunct1, rule_format] and B = Cons.IH [THEN conjunct2, rule_format]
  show ?case
  proof (intro conjI allI impI)
    fix pre acc
    assume h: "c = pre @ x # xs \<and> (pre = [] \<longrightarrow> take 1 (x # xs) \<noteq> [a])"
    show "clean_finish c (clean_loop c a stops None acc (length pre) (x # xs)) = acc @ segments a stops (x # xs)"
    proof (cases "x = a")
      case True
      with h have ne: "pre \<noteq> []" by auto
      have "clean_finish c (clean_loop c a stops (Some (length pre)) acc (length pre + 1 + length ([]::string)) xs)
          = acc @ segments a stops (a # [] @ xs)"
        using h True ne by (intro B) simp
      then show ?thesis using True by (simp add: truthy_def)
    next
      case False
      have "clean_finish c (clean_loop c a stops None acc (length (pre @ [x])) xs) = acc @ segments a stops xs"
        using h by (intro A) simp
      then show ?thesis using False by (simp add: truthy_def)
    qed
  next
    fix pre seg acc
    assume h: "c = pre @ a # seg @ x # xs \<and> pre \<noteq> [] \<and> (\<forall>y\<in>set seg. y \<notin> set stops \<and> y \<noteq> a)"
    let ?p = "length pre" and ?i = "length pre + 1 + length seg"
    from h have seg: "\<forall>y\<in>set seg. y \<notin> set stops \<and> y \<noteq> a" and c: "c = pre @ a # seg @ x # xs" and ne: "pre \<noteq> []" by auto
    have tr: "truthy (Some ?p)" using ne by (simp add: truthy_def)
    have sl: "slice c (?p + 1) ?i = seg" unfolding c by (rule slice_middle)
    show "clean_finish c (clean_loop c a stops (Some ?p) acc ?i (x # xs)) = acc @ segments a stops (a # seg @ x # xs)"
    proof (cases "x \<in> set stops")
      case stop: True
      show ?thesis
      proof (cases "x = a")
        case True
        have "clean_finish c (clean_loop c a stops (Some (length (pre @ a # seg))) (acc @ [seg])
                (length (pre @ a # seg) + 1 + length ([]::string)) xs)
          = (acc @ [seg]) @ segments a stops (a # [] @ xs)"
          using c True by (intro B) simp
        then show ?thesis
          using True stop tr sl segments_closed [OF seg stop, of xs] by (simp add: Let_def)
      next
        case False
        have "clean_finish c (clean_loop c a stops None (acc @ [seg]) (length (pre @ a # seg @ [x])) xs)
          = (acc @ [seg]) @ segments a stops xs"
          using c by (intro A) simp
        then show ?thesis
          using False stop tr sl segments_closed [OF seg stop, of xs] by (simp add: Let_def)
      qed
    next
      case nostop: False
      show ?thesis
      proof (cases "x = a")
        case True
        with nostop have an: "a \<notin> set stops" by simp
        have "clean_finish c (clean_loop c a stops (Some (length (pre @ a # seg))) acc
                (length (pre @ a # seg) + 1 + length ([]::string)) xs)
          = acc @ segments a stops (a # [] @ xs)"
          using c True by (intro B) simp
        then show ?thesis
          using True nostop segments_restart [OF seg an, of xs] by (simp add: Let_def)
      next
        case False
        have "clean_finish c (clean_loop c a stops (Some ?p) acc (?p + 1 + length (seg @ [x])) xs)
          = acc @ segments a stops (a # (seg @ [x]) @ xs)"
          using c seg nostop False ne by (intro B) simp
        then show ?thesis
          using False nostop by (simp add: Let_def)
      qed
    qed
  qed
qed

lemma clean_segments:
  assumes "take 1 c \<noteq> [a]"
  shows "clean a stops c = segments a stops c"
proof (cases "a \<in> set c")
  case False
  then show ?thesis by (simp add: clean_def segments_absent)
next
  case True
  have "clean_finish c (clean_loop c a stops None [] (length ([]::string)) c) = [] @ segments a stops c"
    using assms by (intro clean_loop_segments [THEN conjunct1, rule_format]) simp
  with True show ?thesis by (simp add: clean_def)
qed

lemma segments_substrings_after:
  "a \<in> set stops \<Longrightarrow> segments a stops cs = substrings_after a stops cs"
proof (induction cs)
  case Nil
  show ?case by simp
next
  case (Cons x xs)
  have "a \<notin> set (takeWhile (\<lambda>y. y \<notin> set stops) xs)"
    using Cons.prems by (auto dest: set_takeWhileD)
  with Cons show ?case by simp
qed

text \<open>
  The test \<^verbatim>\<open>c in stop_sep and start\<close> of \<^verbatim>\<open>__clean\<close> reads the index 0 as false, so a
  substring introduced at the very start of the token is not ended by a stop
  character: these two tokens show what is parsed then.
\<close>

lemma clean_cls_leading_dot: "clean_cls ''.a.b'' = [''b''] \<and> clean_cls ''.a#x'' = [''a#x'']"
  by (simp add: select_simps)

lemma clean_attrs_leading_bracket:
  "clean_attrs ''[a=b]'' = Inr [(''a'', ''b]'')] \<and> clean_attrs ''[a=b][c=d]'' = Inr [(''c'', ''d'')]"
  by (simp add: select_simps)

text \<open>
  C6, as stated, fails: the characters that end a class are those of
  \<^verbatim>\<open>cls_sep + id_sep + attr_sep\<close>, which include \<^verbatim>\<open>]\<close>. For the token
  \<^verbatim>\<open>a[href=x.y]\<close> the parsed class is \<^verbatim>\<open>y\<close>, while the substring introduced by \<^verbatim>\<open>.\<close>
  and ended by the next \<^verbatim>\<open>.\<close>, \<^verbatim>\<open>#\<close> or \<^verbatim>\<open>[\<close> or the end of the token is \<^verbatim>\<open>y]\<close>.
\<close>

theorem C6_counterexample:
  "clean_cls ''a[href=x.y]'' = [''y''] \<and>
   substrings_after CHR ''.'' ''.#['' ''a[href=x.y]'' = [''y]'']"
  by (simp add: select_simps)

text \<open>
  C6, amended: for every selector token that does not begin with \<^verbatim>\<open>.\<close>, the parsed
  classes are exactly the substrings introduced by \<^verbatim>\<open>.\<close> and ended by the next
  \<^verbatim>\<open>.\<close>, \<^verbatim>\<open>#\<close>, \<^verbatim>\<open>[\<close> or \<^verbatim>\<open>]\<close> or by the end of the token, in order.
\<close>

theorem C6_classes:
  assumes "take 1 c \<noteq> ''.''"
  shows "clean_cls c = substrings_after CHR ''.'' ''.#[]'' c"
proof -
  have "clean_cls c = segments CHR ''.'' ''.#[]'' c"
    using assms by (simp add: clean_cls_def cls_sep_def id_sep_def attr_sep_def clean_segments)
  then show ?thesis by (simp add: segments_substrings_after)
qed

text \<open>
  C6, witness: the token \<^verbatim>\<open>a#main.x.y[data-v=3]\<close> has the classes \<^verbatim>\<open>x\<close> and \<^verbatim>\<open>y\<close>.
\<close>

theorem C6_witness:
  "take 1 ''a#main.x.y[data-v=3]'' \<noteq> ''.'' \<and> clean_cls ''a#main.x.y[data-v=3]'' = [''x'', ''y'']"
  using C6_classes [of "''a#main.x.y[data-v=3]''"] by simp

lemma split_none: "ch \<notin> set s \<Longrightarrow> split ch s = [s]"
  by (induction s) auto

lemma split_length: "length (split ch s) = Suc (count_list s ch)"
  by (induction s) (auto split: list.splits)

lemma split_one:
  "count_list s ch = 1 \<Longrightarrow>
   split ch s = [takeWhile (\<lambda>x. x \<noteq> ch) s, drop 1 (dropWhile (\<lambda>x. x \<noteq> ch) s)]"
proof (induction s)
  case Nil
  then show ?case by simp
next
  case (Cons c cs)
  show ?case
  proof (cases "c = ch")
    case True
    with Cons.prems have "ch \<notin> set cs" by (simp add: count_list_0_iff)
    with True show ?thesis by (simp add: split_none)
  next
    case False
    with Cons show ?thesis by simp
  qed
qed

lemma attrs_loop_eq:
  "attrs_loop as d =
     (if \<forall>x\<in>set as. count_list x CHR ''='' = 1
      then Inr (fold (\<lambda>a d. AList.update (key_of a) (value_of a) d) as d)
      else Inl ValueError)"
proof (induction as arbitrary: d)
  case Nil
  show ?case by simp
next
  case (Cons a as)
  show ?case
  proof (cases "count_list a CHR ''='' = 1")
    case True
    from split_one [OF True] show ?thesis
      using True by (simp add: Cons.IH key_of_def value_of_def)
  next
    case False
    then have "length (split CHR ''='' a) \<noteq> 2" by (simp add: split_length)
    then have "attrs_loop (a # as) d = Inl ValueError"
      by (auto split: list.splits)
    with False show ?thesis by simp
  qed
qed

lemma attrs_dict_snoc:
  "attrs_dict (as @ [a]) = AList.update (key_of a) (value_of a) (attrs_dict as)"
  by (simp add: attrs_dict_def)

lemma map_of_attrs_dict:
  "map_of (attrs_dict as) k = map_option value_of (find (\<lambda>a. key_of a = k) (rev as))"
proof (induction as rule: rev_induct)
  case Nil
  show ?case by (simp add: attrs_dict_def)
next
  case (snoc a as)
  then show ?case by (simp add: attrs_dict_snoc update_conv')
qed

text \<open>
  C7, as stated, fails: \<^verbatim>\<open>attr.split('=')\<close> splits at every \<^verbatim>\<open>=\<close> and the
  assignment to \<^verbatim>\<open>key, value\<close> needs exactly two pieces. For the token
  \<^verbatim>\<open>x[a=b=c]\<close> the parser raises \<^verbatim>\<open>ValueError\<close>, while splitting at the first \<^verbatim>\<open>=\<close>
  gives the key \<^verbatim>\<open>a\<close> with the value \<^verbatim>\<open>b=c\<close>.
\<close>

theorem C7_counterexample:
  "clean_attrs ''x[a=b=c]'' = Inl ValueError \<and>
   attrs_dict (segments CHR ''['' '']'' ''x[a=b=c]'') = [(''a'', ''b=c'')]"
  by (simp add: select_simps attrs_dict_def key_of_def value_of_def)

text \<open>
  What \<^verbatim>\<open>__clean_attrs\<close> takes as attribute substrings where the brackets of a token
  do not pair up: a further \<^verbatim>\<open>[\<close> starts the substring afresh, and the end of the
  token ends an open substring.
\<close>

lemma clean_attrs_unpaired:
  "clean_attrs ''x[a=1[b=2]'' = Inr [(''b'', ''2'')] \<and>
   clean_attrs ''x[a'' = Inl ValueError \<and> clean_attrs ''div['' = Inl ValueError \<and>
   clean_attrs ''x[a=1'' = Inr [(''a'', ''1'')]"
  by (simp add: select_simps)

text \<open>
  C7, amended: for every selector token that does not begin with \<^verbatim>\<open>[\<close>, take as its
  attribute substrings those introduced by \<^verbatim>\<open>[\<close> and ended by the next \<^verbatim>\<open>]\<close> or, where
  no \<^verbatim>\<open>]\<close> follows, by the end of the token, a further \<^verbatim>\<open>[\<close> before that end starting
  the substring afresh (\<open>segments\<close>). If every attribute substring holds exactly one
  \<^verbatim>\<open>=\<close>, the parser splits each at that \<^verbatim>\<open>=\<close> into key and value and accumulates the
  pairs in order into a dictionary, in which the value of a key is that of the last
  substring with this key; otherwise the parser raises \<^verbatim>\<open>ValueError\<close>.
\<close>

theorem C7_attributes:
  assumes "take 1 c \<noteq> ''[''"
  shows "clean_attrs c =
           (if \<forall>x\<in>set (segments CHR ''['' '']'' c). count_list x CHR ''='' = 1
            then Inr (attrs_dict (segments CHR ''['' '']'' c))
            else Inl ValueError) \<and>
         (\<forall>k. map_of (attrs_dict (segments CHR ''['' '']'' c)) k =
               map_option value_of (find (\<lambda>a. key_of a = k) (rev (segments CHR ''['' '']'' c))))"
proof -
  have "clean (attr_sep ! 0) [attr_sep ! 1] c = segments CHR ''['' '']'' c"
    using assms by (simp add: attr_sep_def clean_segments)
  then show ?thesis
    by (simp add: clean_attrs_def attr_sep_def attrs_loop_eq attrs_dict_def [symmetric] map_of_attrs_dict
        Let_def)
qed

text \<open>
  C7, witness: the token \<^verbatim>\<open>x[a=b][c=d][a=e]\<close>; the later \<^verbatim>\<open>a=e\<close> overwrites \<^verbatim>\<open>a=b\<close>.
\<close>

theorem C7_witness:
  "take 1 ''x[a=b][c=d][a=e]'' \<noteq> ''['' \<and>
   segments CHR ''['' '']'' ''x[a=b][c=d][a=e]'' = [''a=b'', ''c=d'', ''a=e''] \<and>
   clean_attrs ''x[a=b][c=d][a=e]'' = Inr [(''a'', ''e''), (''c'', ''d'')]"
  using C7_attributes [of "''x[a=b][c=d][a=e]''"]
  by (simp add: attrs_dict_def key_of_def value_of_def)

section \<open>Properties of the predicate-to-node test\<close>

lemma class_is_list_init: "class_is_list (heap CustomHTMLParser_init n)"
  by (simp add: CustomHTMLParser_init_def class_is_list_def HtmlTag_init_def)

lemma class_is_list_starttag:
  assumes inv: "\<And>n. class_is_list (heap s n)" and st: "handle_starttag tg ats s = Inr s'"
  shows "class_is_list (heap s' n)"
proof -
  have upd: "\<And>d l. map_of (AList.update ''class'' (StrList l) d) ''class'' = Some (StrList l)"
    by (simp add: update_conv')
  show ?thesis
    using st inv [of n] unfolding handle_starttag_def Let_def
    by (auto simp: class_is_list_def HtmlTag_init_def upd split: option.splits sum.splits attr_value.splits if_splits)
qed

lemma class_is_list_handle:
  assumes inv: "tree_inv s" and cl: "\<And>n. class_is_list (heap s n)" and h: "handle e s = Some (Inr s')"
  shows "class_is_list (heap s' n)"
proof (cases e)
  case (Starttag tg ats)
  with h cl show ?thesis by (auto intro: class_is_list_starttag)
next
  case (Endtag tg)
  with h have e: "handle_endtag tg s = Some (Inr s')" by simp
  from handle_endtag_cases [OF inv, of tg] e obtain vs t where
    "s' = s\<lparr>heap := recovered (heap s) vs t, cur_tag := parent (heap s t)\<rparr>" by auto
  then have "attrs (heap s' n) = attrs (heap s n)" by (simp add: recovered_def)
  with cl [of n] show ?thesis by (simp add: class_is_list_def)
next
  case (Data d)
  with h have "attrs (heap s' n) = attrs (heap s n)"
    by (auto simp: handle_data_def split: option.splits)
  with cl [of n] show ?thesis by (simp add: class_is_list_def)
next
  case (Comment d)
  with h have "attrs (heap s' n) = attrs (heap s n)"
    by (auto simp: handle_comment_def split: option.splits)
  with cl [of n] show ?thesis by (simp add: class_is_list_def)
qed

lemma class_is_list_feed_from:
  "tree_inv s \<Longrightarrow> (\<And>n. class_is_list (heap s n)) \<Longrightarrow> feed_from s es = Some (Inr s') \<Longrightarrow>
   class_is_list (heap s' n)"
proof (induction es arbitrary: s)
  case Nil
  then show ?case by simp
next
  case (Cons e es)
  from Cons.prems(3) obtain s1 where h: "handle e s = Some (Inr s1)" and f: "feed_from s1 es = Some (Inr s')"
    by (auto split: option.splits sum.splits)
  have 1: "tree_inv s1" using tree_inv_handle [OF Cons.prems(1) h] .
  have 2: "\<And>n. class_is_list (heap s1 n)" using class_is_list_handle [OF Cons.prems(1) Cons.prems(2) h] .
  from Cons.IH [OF 1 2 f] show ?case .
qed

lemma class_is_list_feed: "feed es = Some (Inr s) \<Longrightarrow> class_is_list (heap s n)"
  unfolding feed_def by (rule class_is_list_feed_from [OF tree_inv_init class_is_list_init])

lemma all_in_StrList: "all_in cs (StrList l) = Inr (set cs \<subseteq> set l)"
  by (induction cs) (auto simp: py_in_def)

lemma check_attrs_loop_iff:
  "check_attrs_loop kvs t \<longleftrightarrow> (\<forall>(k, v)\<in>set kvs. map_of (attrs t) k = Some (Str v))"
  by (induction kvs t rule: check_attrs_loop.induct) (auto split: option.splits)

text \<open>
  C4: for every selector \<open>s\<close> and every node of a store made by the builder,
  \<^verbatim>\<open>check_html_tag\<close> returns, and returns true exactly when the four conditions
  hold: the tag of \<open>s\<close> is empty or the node's tag; the id of \<open>s\<close> is empty or the
  node's \<^verbatim>\<open>id\<close> attribute is that string; the class list of \<open>s\<close> is empty or the
  node has a class-token list containing every class of \<open>s\<close>; every attribute pair
  of \<open>s\<close> is an attribute of the node with that very string as value.
\<close>

theorem C4_check_html_tag:
  assumes "feed es = Some (Inr b)"
  shows "check_html_tag s (heap b n) =
     Inr ((sel_tag s = [] \<or> sel_tag s = tag (heap b n)) \<and>
          (sel_id s = [] \<or> map_of (attrs (heap b n)) ''id'' = Some (Str (sel_id s))) \<and>
          (cls s = [] \<or>
             (\<exists>l. map_of (attrs (heap b n)) ''class'' = Some (StrList l) \<and> set (cls s) \<subseteq> set l)) \<and>
          (\<forall>(k, v)\<in>set (sel_attrs s). map_of (attrs (heap b n)) k = Some (Str v)))"
proof -
  let ?t = "heap b n"
  from class_is_list_feed [OF assms] have cl: "class_is_list ?t" .
  have c: "check_cls s ?t = Inr (cls s = [] \<or>
             (\<exists>l. map_of (attrs ?t) ''class'' = Some (StrList l) \<and> set (cls s) \<subseteq> set l))"
    using cl by (auto simp: check_cls_def class_is_list_def all_in_StrList split: option.splits attr_value.splits)
  have i: "check_id s ?t \<longleftrightarrow> (sel_id s = [] \<or> map_of (attrs ?t) ''id'' = Some (Str (sel_id s)))"
    by (auto simp: check_id_def split: option.splits)
  have g: "check_tag s ?t \<longleftrightarrow> (sel_tag s = [] \<or> sel_tag s = tag ?t)"
    by (auto simp: check_tag_def)
  show ?thesis
    unfolding check_html_tag_def c i g check_attrs_def check_attrs_loop_iff by auto
qed

text \<open>
  C4, witness: the selector \<^verbatim>\<open>div#m.foo\<close> against \<^verbatim>\<open><div class="foo bar" id="m">\<close>.
\<close>

theorem C4_witness:
  "\<exists>b s. feed [Starttag ''div'' [(''class'', Some ''foo bar''), (''id'', Some ''m'')]] = Some (Inr b) \<and>
      Selector_init ''div#m.foo'' = Inr s \<and> check_html_tag s (heap b 1) = Inr True"
proof -
  obtain b where b: "feed [Starttag ''div'' [(''class'', Some ''foo bar''), (''id'', Some ''m'')]] = Some (Inr b)"
    and t: "tag (heap b 1) = ''div''"
    and a: "attrs (heap b 1) = [(''class'', StrList [''foo'', ''bar'']), (''id'', Str ''m'')]"
    by (simp add: build_simps)
  obtain s where s: "Selector_init ''div#m.foo'' = Inr s" and f: "sel_tag s = ''div''" "sel_id s = ''m''"
     "cls s = [''foo'']" "sel_attrs s = []"
    by (simp add: select_simps)
  from C4_check_html_tag [OF b, of s 1] t a f have "check_html_tag s (heap b 1) = Inr True"
    by simp
  with b s show ?thesis by blast
qed

section \<open>Properties of path encoding and decoding\<close>

lemma digits_nth: "\<forall>k<10. digits ! k \<in> set digits \<and> digits ! k \<noteq> CHR '':'' \<and> digit_val (digits ! k) = k"
  by (simp add: eval_nat_numeral All_less_Suc digits_def digit_val_def)

lemma digits_plain:
  "\<forall>c\<in>set digits. \<not> is_space c \<and> c \<noteq> CHR ''-'' \<and> c \<noteq> CHR ''+'' \<and> c \<noteq> CHR ''_'' \<and> c \<noteq> CHR '':''"
  by (simp add: digits_def is_space_def)

lemma str_digits: "str n \<noteq> [] \<and> set (str n) \<subseteq> set digits"
proof (induction n rule: str.induct)
  case (1 n)
  have m: "n mod 10 < 10" by simp
  show ?case
  proof (cases "n < 10")
    case True
    with digits_nth show ?thesis by (subst (1 2) str.simps) simp
  next
    case False
    with 1 digits_nth m show ?thesis by (subst (1 2) str.simps) simp
  qed
qed

lemma str_value: "foldl (\<lambda>a c. 10 * a + digit_val c) 0 (str n) = n"
proof (induction n rule: str.induct)
  case (1 n)
  have m: "n mod 10 < 10" by simp
  show ?case
  proof (cases "n < 10")
    case True
    with digits_nth show ?thesis by (subst str.simps) simp
  next
    case False
    with 1 digits_nth m show ?thesis by (subst str.simps) simp
  qed
qed

lemma digits_ok_all: "s \<noteq> [] \<Longrightarrow> set s \<subseteq> set digits \<Longrightarrow> digits_ok s"
proof (induction s rule: digits_ok.induct)
  case 1
  then show ?case by simp
next
  case (2 c)
  then show ?case by simp
next
  case (3 c d cs)
  from "3.prems" digits_plain have "d \<noteq> CHR ''_''" by auto
  with 3 show ?case by simp
qed

lemma py_int_digits:
  assumes ne: "s \<noteq> []" and dg: "set s \<subseteq> set digits"
  shows "py_int s = Inr (int (foldl (\<lambda>a c. 10 * a + digit_val c) 0 s))"
proof -
  from dg digits_plain have pl: "\<forall>c\<in>set s. \<not> is_space c \<and> c \<noteq> CHR ''-'' \<and> c \<noteq> CHR ''+'' \<and> c \<noteq> CHR ''_''"
    by blast
  have d1: "dropWhile is_space s = s" using ne pl by (cases s) auto
  have d2: "dropWhile is_space (rev s) = rev s" using ne pl by (cases "rev s") auto
  have st: "strip s = s" by (simp add: strip_def d1 d2)
  obtain c r where s: "s = c # r" using ne by (cases s) auto
  with pl have c: "c \<noteq> CHR ''-''" "c \<noteq> CHR ''+''" by auto
  have f: "filter (\<lambda>c. c \<noteq> CHR ''_'') s = s" using pl by (simp add: filter_id_conv)
  have ok: "digits_ok s" using ne dg by (rule digits_ok_all)
  show ?thesis
    unfolding py_int_def st using c ok f by (simp add: s)
qed

lemma py_int_str: "py_int (str n) = Inr (int n)"
  using py_int_digits [of "str n"] str_digits [of n] by (simp add: str_value)

lemma map_err_py_int: "map_err py_int (map str is) = Inr (map int is)"
  by (induction "is") (simp_all add: py_int_str)

lemma split_append: "ch \<notin> set w \<Longrightarrow> split ch (w @ ch # rest) = w # split ch rest"
  by (induction w) auto

lemma str_no_colon: "CHR '':'' \<notin> set (str n)"
  using str_digits [of n] digits_plain by blast

lemma split_enc: "split CHR '':'' (str i @ enc is) = str i # map str is"
proof (induction "is" arbitrary: i)
  case Nil
  show ?case by (simp add: enc_def split_none str_no_colon)
next
  case (Cons j js)
  have "enc (j # js) = CHR '':'' # str j @ enc js" by (simp add: enc_def)
  then show ?case by (simp add: split_append str_no_colon Cons.IH)
qed

lemma decode_enc:
  assumes "is \<noteq> []"
  shows "map_err py_int (split CHR '':'' (drop 1 (enc is))) = Inr (map int is)"
proof -
  from assms obtain i js where "is = i # js" by (cases "is") auto
  then have "drop 1 (enc is) = str i @ enc js" by (simp add: enc_def)
  then show ?thesis using \<open>is = i # js\<close> map_err_py_int [of "i # js"] by (simp add: split_enc)
qed

lemma index_from_mem:
  "x \<in> set xs \<Longrightarrow> \<exists>i. index_from k x xs = Some (k + i) \<and> i < length xs \<and> xs ! i = x"
proof (induction xs arbitrary: k)
  case Nil
  then show ?case by simp
next
  case (Cons y ys)
  show ?case
  proof (cases "x = y")
    case True
    then have "index_from k x (y # ys) = Some (k + 0) \<and> 0 < length (y # ys) \<and> (y # ys) ! 0 = x" by simp
    then show ?thesis by blast
  next
    case False
    with Cons.prems have "x \<in> set ys" by simp
    from Cons.IH [OF this, of "Suc k"] obtain i where
      "index_from (Suc k) x ys = Some (Suc k + i)" "i < length ys" "ys ! i = x" by blast
    with False have "index_from k x (y # ys) = Some (k + Suc i) \<and> Suc i < length (y # ys) \<and> (y # ys) ! Suc i = x"
      by simp
    then show ?thesis by blast
  qed
qed

lemma getitem_nat: "i < length xs \<Longrightarrow> getitem xs (int i) = Inr (xs ! i)"
  by (simp add: getitem_def)

lemma get_tag_loop_append:
  "get_tag_loop h r (is @ js) =
     (case get_tag_loop h r is of Inl e \<Rightarrow> Inl e | Inr m \<Rightarrow> get_tag_loop h m js)"
  by (induction "is" arbitrary: r) (auto split: sum.splits)

lemma get_path_loop_root: "parent (h r) = None \<Longrightarrow> get_path_loop h r path = Some path"
  by (subst get_path_loop.simps) simp

lemma get_path_loop_step:
  "parent (h n) = Some m \<Longrightarrow> index_from 0 n (children (h m)) = Some i \<Longrightarrow>
   get_path_loop h n path = get_path_loop h m ((CHR '':'' # str i) @ path)"
  by (subst get_path_loop.simps) simp

lemma child_path:
  assumes pc: "parent_of_child h" and n: "n \<in> set (children (h m))"
  shows "\<exists>i. get_tag_loop h m [int i] = Inr n \<and>
             (\<forall>path. get_path_loop h n path = get_path_loop h m ((CHR '':'' # str i) @ path))"
proof -
  from pc n have p: "parent (h n) = Some m" by (simp add: parent_of_child_def)
  from index_from_mem [OF n, of 0] obtain i where
    i: "index_from 0 n (children (h m)) = Some i" "i < length (children (h m))" "children (h m) ! i = n"
    by auto
  have "get_tag_loop h m [int i] = Inr n" using i by (simp add: getitem_nat)
  moreover have "\<forall>path. get_path_loop h n path = get_path_loop h m ((CHR '':'' # str i) @ path)"
    using get_path_loop_step [OF p i(1)] by blast
  ultimately show ?thesis by blast
qed

lemma descendant_path:
  assumes pc: "parent_of_child h" and r: "parent (h r) = None" and d: "descendant h r n"
  shows "\<exists>is. is \<noteq> [] \<and> get_tag_loop h r (map int is) = Inr n \<and>
              (\<forall>path. get_path_loop h n path = Some (enc is @ path))"
  using d
proof (induction rule: descendant.induct)
  case (child c)
  from child_path [OF pc child] obtain i where
    i: "get_tag_loop h r [int i] = Inr c"
       "\<forall>path. get_path_loop h c path = get_path_loop h r ((CHR '':'' # str i) @ path)" by blast
  have "[i] \<noteq> [] \<and> get_tag_loop h r (map int [i]) = Inr c \<and>
        (\<forall>path. get_path_loop h c path = Some (enc [i] @ path))"
    using i r by (simp add: get_path_loop_root enc_def)
  then show ?case by blast
next
  case (step m c)
  from step.IH obtain js where
    js: "js \<noteq> []" "get_tag_loop h r (map int js) = Inr m"
        "\<forall>path. get_path_loop h m path = Some (enc js @ path)" by blast
  from child_path [OF pc step.hyps(2)] obtain i where
    i: "get_tag_loop h m [int i] = Inr c"
       "\<forall>path. get_path_loop h c path = get_path_loop h m ((CHR '':'' # str i) @ path)" by blast
  have "js @ [i] \<noteq> [] \<and> get_tag_loop h r (map int (js @ [i])) = Inr c \<and>
        (\<forall>path. get_path_loop h c path = Some (enc (js @ [i]) @ path))"
    using i js by (simp add: get_tag_loop_append enc_def)
  then show ?case by blast
qed

lemma path_round_trip:
  assumes pc: "parent_of_child (objects P)" and r: "parent (objects P (root_tag P)) = None"
    and d: "descendant (objects P) (root_tag P) n"
  shows "\<exists>path. get_path (objects P) n = Some path \<and> get_tag P path = Inr n"
proof -
  from descendant_path [OF pc r d] obtain "is" where
    a: "is \<noteq> []" "get_tag_loop (objects P) (root_tag P) (map int is) = Inr n"
       "\<forall>path. get_path_loop (objects P) n path = Some (enc is @ path)" by blast
  from a(3) have "get_path (objects P) n = Some (drop 1 (enc is))"
    by (simp add: get_path_def)
  moreover have "get_tag P (drop 1 (enc is)) = Inr n"
    using a(2) decode_enc [OF a(1)] by (simp add: get_tag_def)
  ultimately show ?thesis by blast
qed

lemma tree_inv_root: "tree_inv b \<Longrightarrow> parent (heap b (root b)) = None"
  by (cases "parent (heap b 0)") (auto simp: tree_inv_def ordered_def)

text \<open>
  C8, as stated, fails for the root node, which is a node of every tree: its encoded
  path is the empty string, and decoding the empty string raises \<^verbatim>\<open>ValueError\<close>
  (\<^verbatim>\<open>int('')\<close>). The stream \<^verbatim>\<open><div></div>\<close> is well formed.
\<close>

theorem C8_counterexample:
  "case HtmlParser_init [Starttag ''div'' [], Endtag ''div''] of
     Some (Inr P) \<Rightarrow>
       get_path (objects P) (root_tag P) = Some [] \<and> get_tag P [] = Inl ValueError
   | _ \<Rightarrow> False"
  by (simp add: build_simps path_simps)

text \<open>
  C8, amended: for every tree the builder returns (from any event stream, well
  formed or not) and every proper descendant \<open>n\<close> of its root, \<^verbatim>\<open>get_path\<close> returns
  a path for \<open>n\<close>, and \<^verbatim>\<open>get_tag\<close> on that path against the same root returns \<open>n\<close>.
\<close>

theorem C8_path_round_trip:
  assumes "feed es = Some (Inr b)" and "objects P = heap b" and "root_tag P = root b"
    and "descendant (heap b) (root b) n"
  shows "\<exists>path. get_path (heap b) n = Some path \<and> get_tag P path = Inr n"
proof -
  from assms(1) have inv: "tree_inv b" by (rule tree_inv_feed)
  have "parent_of_child (objects P)" using inv assms(2) by (simp add: tree_inv_def)
  moreover have "parent (objects P (root_tag P)) = None"
    using tree_inv_root [OF inv] assms(2,3) by simp
  moreover have "descendant (objects P) (root_tag P) n" using assms(2-4) by simp
  ultimately have "\<exists>path. get_path (objects P) n = Some path \<and> get_tag P path = Inr n"
    by (rule path_round_trip)
  then show ?thesis using assms(2) by simp
qed

text \<open>
  C8, witness: the \<^verbatim>\<open>span\<close> node of \<^verbatim>\<open><div><div><span></span></div></div>\<close>, with the
  path \<^verbatim>\<open>0:0:0\<close>.
\<close>

theorem C8_witness:
  "\<exists>b P. feed span_in_two_divs = Some (Inr b) \<and> HtmlParser_init span_in_two_divs = Some (Inr P) \<and>
      objects P = heap b \<and> root_tag P = root b \<and> descendant (heap b) (root b) 3 \<and>
      get_path (heap b) 3 = Some ''0:0:0'' \<and> get_tag P ''0:0:0'' = Inr 3"
proof -
  obtain b where b: "feed span_in_two_divs = Some (Inr b)"
    and k: "root b = 0" "1 \<in> set (children (heap b 0))" "2 \<in> set (children (heap b 1))"
       "3 \<in> set (children (heap b 2))"
    and g: "get_path (heap b) 3 = Some ''0:0:0''"
    by (simp add: span_in_two_divs_def build_simps path_simps)
  define P where "P = \<lparr>cache_dict = [], objects = heap b, root_tag = root b\<rparr>"
  have P: "HtmlParser_init span_in_two_divs = Some (Inr P)" "objects P = heap b" "root_tag P = root b"
    using b by (simp_all add: HtmlParser_init_def P_def)
  have d: "descendant (heap b) (root b) 3"
    unfolding k(1) using k(2-4) by (blast intro: descendant.intros)
  from C8_path_round_trip [OF b P(2,3) d] g have "get_tag P ''0:0:0'' = Inr 3" by auto
  with b P d g show ?thesis by blast
qed

section \<open>Properties of the matching engine\<close>

lemma child_ordered:
  "parent_of_child h \<Longrightarrow> ordered h N \<Longrightarrow> c \<in> set (children (h p)) \<Longrightarrow> p < c \<and> c < N"
  by (simp add: parent_of_child_def ordered_def)

lemma descendant_greater:
  assumes "parent_of_child h" "ordered h N" "descendant h r x"
  shows "r < x"
  using assms(3)
proof (induction rule: descendant.induct)
  case (child c)
  with child_ordered [OF assms(1,2)] show ?case by blast
next
  case (step m c)
  with child_ordered [OF assms(1,2) step.hyps(2)] show ?case by simp
qed

lemma descendant_below_child:
  assumes "c \<in> set (children (h t))" and "descendant h c x"
  shows "descendant h t x"
  using assms(2)
proof (induction rule: descendant.induct)
  case (child y)
  from assms(1) have "descendant h t c" by (rule descendant.child)
  then show ?case using child by (rule descendant.step)
next
  case (step m y)
  then show ?case by (blast intro: descendant.step)
qed

lemma mset_replace_smaller:
  fixes a :: nat
  assumes "\<forall>k\<in>#K. k < a"
  shows "I + K < add_mset a I"
proof -
  have "multp (<) (I + K) (I + {#a#})"
    using assms by (intro one_step_implies_multp) auto
  then show ?thesis by (simp add: less_multiset_def)
qed

lemma select_loop_Nil: "select_loop h [] res = Some (Inr res)"
  by (subst select_loop.simps) simp

lemma select_loop_Cons:
  "select_loop h ((t, sels) # q') res =
     (case sels of
        [] \<Rightarrow> Some (Inl IndexError)
      | s0 # rest \<Rightarrow>
          (case check_html_tag s0 (h t) of
             Inl e \<Rightarrow> Some (Inl e)
           | Inr ok \<Rightarrow>
               if ok then
                 if rest = [] then select_loop h (q' @ map (\<lambda>c. (c, sels)) (children (h t))) (res @ [t])
                 else select_loop h ((q' @ map (\<lambda>c. (c, sels)) (children (h t))) @
                                      map (\<lambda>c. (c, rest)) (children (h t))) res
               else select_loop h (q' @ map (\<lambda>c. (c, sels)) (children (h t))) res))"
  by (subst select_loop.simps, cases sels) (auto simp: Let_def split: sum.splits)

lemma within_mono:
  assumes "within h q1 x"
    and "\<And>n. n \<in> fst ` set q1 \<Longrightarrow> n \<in> fst ` set q \<or> (\<exists>t\<in>fst ` set q. n \<in> set (children (h t)))"
  shows "within h q x"
proof -
  from assms(1) obtain n where n: "n \<in> fst ` set q1" "x = n \<or> descendant h n x"
    by (auto simp: within_def)
  from assms(2) [OF n(1)] show ?thesis
  proof
    assume "n \<in> fst ` set q"
    with n(2) show ?thesis unfolding within_def by blast
  next
    assume "\<exists>t\<in>fst ` set q. n \<in> set (children (h t))"
    then obtain t where t: "t \<in> fst ` set q" "n \<in> set (children (h t))" by blast
    from n(2) t(2) have "descendant h t x"
      by (auto intro: descendant.child descendant_below_child)
    with t(1) show ?thesis unfolding within_def by blast
  qed
qed

lemma select_loop_total:
  assumes pc: "parent_of_child h" and ord: "ordered h N"
  shows "\<exists>r. select_loop h q res = Some r \<and>
           (\<forall>res'. r = Inr res' \<longrightarrow> (\<exists>ys. res' = res @ ys \<and> (\<forall>x\<in>set ys. within h q x)))"
proof (induction "mset (map (\<lambda>e. N - fst e) q)" arbitrary: q res rule: less_induct)
  case less
  show ?case
  proof (cases q)
    case Nil
    then show ?thesis by (simp add: select_loop_Nil)
  next
    case (Cons e q')
    obtain t sels where e: "e = (t, sels)" by (cases e)
    let ?kids = "children (h t)"
    let ?q1 = "q' @ map (\<lambda>c. (c, sels)) ?kids"
    have "N - c < N - t" if "c \<in> set ?kids" for c
      using child_ordered [OF pc ord that] by arith
    then have small: "\<forall>k\<in>#mset (map (\<lambda>c. N - c) ?kids). k < N - t"
      by auto
    have m1: "mset (map (\<lambda>e. N - fst e) ?q1) < mset (map (\<lambda>e. N - fst e) q)"
      using mset_replace_smaller [OF small, of "mset (map (\<lambda>e. N - fst e) q')"]
      by (simp add: Cons e comp_def)
    have w1: "\<And>x. within h ?q1 x \<Longrightarrow> within h q x"
      by (erule within_mono) (auto simp: Cons e)
    have r1: "\<exists>r. select_loop h ?q1 res1 = Some r \<and>
           (\<forall>res'. r = Inr res' \<longrightarrow> (\<exists>ys. res' = res1 @ ys \<and> (\<forall>x\<in>set ys. within h q x)))" for res1
    proof -
      from less [OF m1, of res1] obtain r where a: "select_loop h ?q1 res1 = Some r"
        and b: "\<forall>res'. r = Inr res' \<longrightarrow> (\<exists>ys. res' = res1 @ ys \<and> (\<forall>x\<in>set ys. within h ?q1 x))"
        by blast
      have "\<forall>res'. r = Inr res' \<longrightarrow> (\<exists>ys. res' = res1 @ ys \<and> (\<forall>x\<in>set ys. within h q x))"
      proof (intro allI impI)
        fix res' assume "r = Inr res'"
        with b obtain ys where "res' = res1 @ ys" "\<forall>x\<in>set ys. within h ?q1 x" by blast
        with w1 have "res' = res1 @ ys \<and> (\<forall>x\<in>set ys. within h q x)" by simp
        then show "\<exists>ys. res' = res1 @ ys \<and> (\<forall>x\<in>set ys. within h q x)" ..
      qed
      with a show ?thesis by simp
    qed
    show ?thesis
    proof (cases sels)
      case Nil
      then show ?thesis by (simp add: Cons e select_loop_Cons)
    next
      case sels: (Cons s0 rest)
      let ?q2 = "?q1 @ map (\<lambda>c. (c, rest)) ?kids"
      have small2: "\<forall>k\<in>#mset (map (\<lambda>c. N - c) ?kids) + mset (map (\<lambda>c. N - c) ?kids). k < N - t"
        using small by auto
      have m2: "mset (map (\<lambda>e. N - fst e) ?q2) < mset (map (\<lambda>e. N - fst e) q)"
        using mset_replace_smaller [OF small2, of "mset (map (\<lambda>e. N - fst e) q')"]
        by (simp add: Cons e comp_def)
      have w2: "\<And>x. within h ?q2 x \<Longrightarrow> within h q x"
        by (erule within_mono) (auto simp: Cons e)
      have r2: "\<exists>r. select_loop h ?q2 res = Some r \<and>
           (\<forall>res'. r = Inr res' \<longrightarrow> (\<exists>ys. res' = res @ ys \<and> (\<forall>x\<in>set ys. within h q x)))"
      proof -
        from less [OF m2, of res] obtain r where a: "select_loop h ?q2 res = Some r"
          and b: "\<forall>res'. r = Inr res' \<longrightarrow> (\<exists>ys. res' = res @ ys \<and> (\<forall>x\<in>set ys. within h ?q2 x))"
          by blast
        have "\<forall>res'. r = Inr res' \<longrightarrow> (\<exists>ys. res' = res @ ys \<and> (\<forall>x\<in>set ys. within h q x))"
        proof (intro allI impI)
          fix res' assume "r = Inr res'"
          with b obtain ys where "res' = res @ ys" "\<forall>x\<in>set ys. within h ?q2 x" by blast
          with w2 have "res' = res @ ys \<and> (\<forall>x\<in>set ys. within h q x)" by simp
          then show "\<exists>ys. res' = res @ ys \<and> (\<forall>x\<in>set ys. within h q x)" ..
        qed
        with a show ?thesis by simp
      qed
      show ?thesis
      proof (cases "check_html_tag s0 (h t)")
        case (Inl err)
        then show ?thesis by (simp add: Cons e sels select_loop_Cons)
      next
        case (Inr ok)
        show ?thesis
        proof (cases "ok \<and> rest = []")
          case True
          from r1 [of "res @ [t]"] obtain r where
            r: "select_loop h ?q1 (res @ [t]) = Some r"
               "\<forall>res'. r = Inr res' \<longrightarrow> (\<exists>ys. res' = (res @ [t]) @ ys \<and> (\<forall>x\<in>set ys. within h q x))"
            by blast
          have wt: "within h q t" by (auto simp: within_def Cons e)
          have "\<forall>res'. r = Inr res' \<longrightarrow> (\<exists>ys. res' = res @ ys \<and> (\<forall>x\<in>set ys. within h q x))"
          proof (intro allI impI)
            fix res' assume "r = Inr res'"
            with r(2) obtain ys where "res' = (res @ [t]) @ ys" "\<forall>x\<in>set ys. within h q x" by blast
            with wt have "res' = res @ (t # ys) \<and> (\<forall>x\<in>set (t # ys). within h q x)" by simp
            then show "\<exists>ys. res' = res @ ys \<and> (\<forall>x\<in>set ys. within h q x)" by blast
          qed
          moreover have "select_loop h q res = Some r"
            using True Inr r(1) by (simp add: Cons e select_loop_Cons sels)
          ultimately show ?thesis by blast
        next
          case False
          show ?thesis
          proof (cases ok)
            case True
            with False have "rest \<noteq> []" by simp
            then have "select_loop h q res = select_loop h ?q2 res"
              using True Inr by (simp add: Cons e select_loop_Cons sels)
            with r2 show ?thesis by simp
          next
            case False
            then have "select_loop h q res = select_loop h ?q1 res"
              using Inr by (simp add: Cons e select_loop_Cons sels)
            with r1 [of res] show ?thesis by simp
          qed
        qed
      qed
    qed
  qed
qed


lemma select_seed:
  assumes pc: "parent_of_child h" and ord: "ordered h N"
    and ck: "check_html_tag s0 (h t) = Inr ok"
  shows "\<exists>r. select_loop h [(t, s0 # rest)] [] = Some r \<and>
     (\<forall>res. r = Inr res \<longrightarrow>
        (\<exists>ys. res = (if ok \<and> rest = [] then [t] else []) @ ys \<and> (\<forall>x\<in>set ys. descendant h t x)))"
proof -
  let ?kids = "children (h t)"
  have below: "descendant h t x" if "within h q x" "fst ` set q \<subseteq> set ?kids" for q x
  proof -
    from that obtain n where "n \<in> set ?kids" "x = n \<or> descendant h n x"
      by (auto simp: within_def)
    then show ?thesis by (auto intro: descendant.child descendant_below_child)
  qed
  have gen: "\<exists>r. select_loop h q res0 = Some r \<and>
     (\<forall>res. r = Inr res \<longrightarrow> (\<exists>ys. res = res0 @ ys \<and> (\<forall>x\<in>set ys. descendant h t x)))"
    if sub: "fst ` set q \<subseteq> set ?kids" for q res0
  proof -
    from select_loop_total [OF pc ord, of q res0] obtain r where a: "select_loop h q res0 = Some r"
      and b: "\<forall>res'. r = Inr res' \<longrightarrow> (\<exists>ys. res' = res0 @ ys \<and> (\<forall>x\<in>set ys. within h q x))"
      by blast
    have "\<forall>res. r = Inr res \<longrightarrow> (\<exists>ys. res = res0 @ ys \<and> (\<forall>x\<in>set ys. descendant h t x))"
    proof (intro allI impI)
      fix res assume "r = Inr res"
      with b obtain ys where "res = res0 @ ys" "\<forall>x\<in>set ys. within h q x" by blast
      with below sub have "res = res0 @ ys \<and> (\<forall>x\<in>set ys. descendant h t x)" by blast
      then show "\<exists>ys. res = res0 @ ys \<and> (\<forall>x\<in>set ys. descendant h t x)" ..
    qed
    with a show ?thesis by simp
  qed
  let ?q1 = "map (\<lambda>c. (c, s0 # rest)) ?kids"
  let ?q2 = "?q1 @ map (\<lambda>c. (c, rest)) ?kids"
  have s1: "fst ` set ?q1 \<subseteq> set ?kids" and s2: "fst ` set ?q2 \<subseteq> set ?kids" by auto
  show ?thesis
  proof (cases "ok \<and> rest = []")
    case True
    then have "select_loop h [(t, s0 # rest)] [] = select_loop h ?q1 [t]"
      using ck by (simp add: select_loop_Cons)
    with gen [OF s1, of "[t]"] True show ?thesis by simp
  next
    case False
    then have eq: "(if ok \<and> rest = [] then [t] else []) = []" by simp
    show ?thesis
    proof (cases ok)
      case True
      with False have "rest \<noteq> []" by simp
      with True have st: "select_loop h [(t, s0 # rest)] [] = select_loop h ?q2 []"
        using ck by (simp add: select_loop_Cons)
      show ?thesis unfolding eq st using gen [OF s2, of "[]"] by simp
    next
      case nok: False
      then have st: "select_loop h [(t, s0 # rest)] [] = select_loop h ?q1 []"
        using ck by (simp add: select_loop_Cons)
      show ?thesis unfolding eq st using gen [OF s1, of "[]"] by simp
    qed
  qed
qed

lemma root_inv_init: "root_inv CustomHTMLParser_init"
  by (simp add: root_inv_def CustomHTMLParser_init_def HtmlTag_init_def)

lemma root_inv_handle:
  assumes inv: "tree_inv s" and ri: "root_inv s" and h: "handle e s = Some (Inr s')"
  shows "root_inv s'"
proof (cases e)
  case (Starttag tg ats)
  with h have st: "handle_starttag tg ats s = Inr s'" by simp
  from handle_starttag_shape [OF st] obtain c d where c: "cur_tag s = Some c"
    and s': "s' = s\<lparr>heap := ((heap s)(nxt s := HtmlTag_init tg d (Some c)))
                  (c := (((heap s)(nxt s := HtmlTag_init tg d (Some c))) c)
                         \<lparr>children := children (((heap s)(nxt s := HtmlTag_init tg d (Some c))) c) @ [nxt s]\<rparr>),
             nxt := Suc (nxt s), cur_tag := Some (nxt s)\<rparr>" by blast
  from inv c have "c < nxt s" by (simp add: tree_inv_def)
  with ri show ?thesis unfolding s' by (auto simp: root_inv_def)
next
  case (Endtag tg)
  with h have e: "handle_endtag tg s = Some (Inr s')" by simp
  from handle_endtag_cases [OF inv, of tg] e obtain vs t where
    "s' = s\<lparr>heap := recovered (heap s) vs t, cur_tag := parent (heap s t)\<rparr>" by auto
  with ri show ?thesis by (simp add: root_inv_def recovered_def)
next
  case (Data d)
  with h ri show ?thesis
    by (auto simp: handle_data_def root_inv_def split: option.splits)
next
  case (Comment d)
  with h ri show ?thesis
    by (auto simp: handle_comment_def root_inv_def split: option.splits)
qed

lemma root_inv_feed_from:
  "tree_inv s \<Longrightarrow> root_inv s \<Longrightarrow> feed_from s es = Some (Inr s') \<Longrightarrow> root_inv s'"
proof (induction es arbitrary: s)
  case Nil
  then show ?case by simp
next
  case (Cons e es)
  from Cons.prems(3) obtain s1 where h: "handle e s = Some (Inr s1)" and f: "feed_from s1 es = Some (Inr s')"
    by (auto split: option.splits sum.splits)
  have 1: "tree_inv s1" using tree_inv_handle [OF Cons.prems(1) h] .
  have 2: "root_inv s1" using root_inv_handle [OF Cons.prems(1) Cons.prems(2) h] .
  from Cons.IH [OF 1 2 f] show ?case .
qed

lemma root_inv_feed: "feed es = Some (Inr s) \<Longrightarrow> root_inv s"
  unfolding feed_def by (rule root_inv_feed_from [OF tree_inv_init root_inv_init])

lemma check_root:
  assumes "tag t = ''root''" "attrs t = []"
  shows "check_html_tag s t =
     Inr ((sel_tag s = [] \<or> sel_tag s = ''root'') \<and> sel_id s = [] \<and> cls s = [] \<and> sel_attrs s = [])"
proof -
  have a: "check_attrs_loop kvs t \<longleftrightarrow> kvs = []" for kvs
    using assms(2) by (cases kvs) auto
  show ?thesis
    using assms by (auto simp: check_html_tag_def check_tag_def check_id_def check_cls_def check_attrs_def a)
qed

lemma split_not_Nil: "split ch s \<noteq> []"
  by (induction s) (auto split: list.splits)

lemma map_err_length: "map_err f xs = Inr ys \<Longrightarrow> length ys = length xs"
  by (induction xs arbitrary: ys) (auto split: sum.splits)

lemma Selector_parse_not_Nil: "Selector_parse c \<noteq> Inr []"
  using map_err_length [of Selector_init "split sep c" "[]"] split_not_Nil [of sep c]
  by (auto simp: Selector_parse_def)

lemma HtmlTag_select_results:
  assumes "feed es = Some (Inr b)"
  shows "\<exists>r. HtmlTag_select (heap b) (root b) c = Some r \<and>
     (\<forall>res. r = Inr res \<longrightarrow>
        (\<forall>x\<in>set res. x = root b \<or> descendant (heap b) (root b) x) \<and>
        (root b \<in> set res \<longleftrightarrow>
           (\<exists>s. Selector_parse c = Inr [s] \<and> (sel_tag s = [] \<or> sel_tag s = ''root'') \<and>
                sel_id s = [] \<and> cls s = [] \<and> sel_attrs s = [])))"
proof -
  let ?h = "heap b"
  from assms have inv: "tree_inv b" and ri: "root_inv b" by (rule tree_inv_feed, rule root_inv_feed)
  from inv have r0: "root b = 0" and pc: "parent_of_child ?h" and ord: "ordered ?h (nxt b)"
    by (simp_all add: tree_inv_def)
  show ?thesis
  proof (cases "Selector_parse c")
    case (Inl e)
    then show ?thesis by (simp add: HtmlTag_select_def)
  next
    case (Inr sels)
    with Selector_parse_not_Nil [of c] obtain s0 rest where sels: "sels = s0 # rest"
      by (cases sels) auto
    let ?ok = "(sel_tag s0 = [] \<or> sel_tag s0 = ''root'') \<and> sel_id s0 = [] \<and> cls s0 = [] \<and> sel_attrs s0 = []"
    have ck: "check_html_tag s0 (?h 0) = Inr ?ok"
      using ri by (intro check_root) (simp_all add: root_inv_def)
    from select_seed [OF pc ord ck, of rest] obtain r where
      a: "select_loop ?h [(0, s0 # rest)] [] = Some r"
      and b: "\<forall>res. r = Inr res \<longrightarrow>
        (\<exists>ys. res = (if ?ok \<and> rest = [] then [0] else []) @ ys \<and> (\<forall>x\<in>set ys. descendant ?h 0 x))"
      by blast
    have sel: "HtmlTag_select ?h (root b) c = Some r"
      using a by (simp add: HtmlTag_select_def Inr sels r0)
    have "(\<forall>x\<in>set res. x = root b \<or> descendant ?h (root b) x) \<and>
        (root b \<in> set res \<longleftrightarrow>
           (\<exists>s. Selector_parse c = Inr [s] \<and> (sel_tag s = [] \<or> sel_tag s = ''root'') \<and>
                sel_id s = [] \<and> cls s = [] \<and> sel_attrs s = []))" if "r = Inr res" for res
    proof -
      from b that obtain ys where ys: "res = (if ?ok \<and> rest = [] then [0] else []) @ ys"
        "\<forall>x\<in>set ys. descendant ?h 0 x" by blast
      have nz: "0 \<notin> set ys"
        using ys(2) descendant_greater [OF pc ord, of 0 0] by auto
      have 1: "\<forall>x\<in>set res. x = root b \<or> descendant ?h (root b) x"
        using ys by (auto simp: r0)
      have 2: "root b \<in> set res \<longleftrightarrow> (?ok \<and> rest = [])"
        using ys(1) nz by (auto simp: r0)
      have 3: "(\<exists>s. Selector_parse c = Inr [s] \<and> (sel_tag s = [] \<or> sel_tag s = ''root'') \<and>
                sel_id s = [] \<and> cls s = [] \<and> sel_attrs s = []) \<longleftrightarrow> (?ok \<and> rest = [])"
        by (auto simp: Inr sels)
      from 1 2 3 show ?thesis by simp
    qed
    with sel show ?thesis by blast
  qed
qed

text \<open>
  C5, as stated, fails: the queue is seeded with the root, and the only token of the
  empty query parses to a predicate with no tag, id, class or attribute, which every
  node satisfies. On the tree of \<^verbatim>\<open><div></div>\<close> the empty query returns the root
  and the \<^verbatim>\<open>div\<close> node.
\<close>

theorem C5_counterexample:
  "case feed [Starttag ''div'' [], Endtag ''div''] of
     Some (Inr b) \<Rightarrow> HtmlTag_select (heap b) (root b) [] = Some (Inr [root b, 1])
   | _ \<Rightarrow> False"
  by (simp add: build_simps select_simps)

text \<open>
  C5, amended: on every tree the builder returns and for every query string,
  \<^verbatim>\<open>select\<close> returns (a result list or the error of a malformed selector); every node
  of a result list is the root or a proper descendant of the root (the root is not
  its own descendant); and the root is in the result list exactly when the query is a
  single token whose predicate has the tag \<^verbatim>\<open>root\<close> or no tag, and no id, class or
  attribute.
\<close>

theorem C5_root_in_results:
  assumes "feed es = Some (Inr b)"
  shows "\<exists>r. HtmlTag_select (heap b) (root b) c = Some r \<and>
     (\<forall>res. r = Inr res \<longrightarrow>
        (\<forall>x\<in>set res. x = root b \<or> descendant (heap b) (root b) x) \<and>
        \<not> descendant (heap b) (root b) (root b) \<and>
        (root b \<in> set res \<longleftrightarrow>
           (\<exists>s. Selector_parse c = Inr [s] \<and> (sel_tag s = [] \<or> sel_tag s = ''root'') \<and>
                sel_id s = [] \<and> cls s = [] \<and> sel_attrs s = [])))"
proof -
  from assms have "tree_inv b" by (rule tree_inv_feed)
  then have "parent_of_child (heap b)" "ordered (heap b) (nxt b)" by (simp_all add: tree_inv_def)
  then have "\<not> descendant (heap b) (root b) (root b)"
    using descendant_greater [of "heap b" "nxt b" "root b" "root b"] by auto
  with HtmlTag_select_results [OF assms, of c] show ?thesis by simp
qed

text \<open>
  C5, witness: the query \<^verbatim>\<open>div span\<close> on \<^verbatim>\<open><div><div><span></span></div></div>\<close>.
\<close>

theorem C5_witness:
  "\<exists>b. feed span_in_two_divs = Some (Inr b) \<and>
       HtmlTag_select (heap b) (root b) ''div span'' = Some (Inr [3, 3]) \<and>
       3 \<noteq> root b \<and> descendant (heap b) (root b) 3"
proof -
  obtain b where b: "feed span_in_two_divs = Some (Inr b)" and r: "root b = 0"
    and s: "HtmlTag_select (heap b) (root b) ''div span'' = Some (Inr [3, 3])"
    by (simp add: span_in_two_divs_def build_simps select_simps)
  from C5_root_in_results [OF b, of "''div span''"] obtain r0 where
    r0: "HtmlTag_select (heap b) (root b) ''div span'' = Some r0"
    and a: "\<forall>res. r0 = Inr res \<longrightarrow> (\<forall>x\<in>set res. x = root b \<or> descendant (heap b) (root b) x)"
    by blast
  from r0 s have "r0 = Inr [3, 3]" by simp
  with a have "\<forall>x\<in>set [3, 3]. x = root b \<or> descendant (heap b) (root b) x" by blast
  with r have "descendant (heap b) (root b) 3" by simp
  with b r s show ?thesis by auto
qed

section \<open>Properties of the path cache\<close>

lemma get_path_root: "parent (h r) = None \<Longrightarrow> get_path h r = Some []"
  by (simp add: get_path_def get_path_loop_root)

lemma paths_loop_round_trip:
  assumes pc: "parent_of_child (objects P)" and r: "parent (objects P (root_tag P)) = None"
    and ts: "\<forall>x\<in>set ts. x = root_tag P \<or> descendant (objects P) (root_tag P) x"
  shows "\<exists>ps. paths_loop (objects P) ts acc = Some (acc @ ps) \<and>
              (root_tag P \<notin> set ts \<longrightarrow> get_tags P ps = Inr ts)"
  using ts
proof (induction ts arbitrary: acc)
  case Nil
  show ?case by (simp add: get_tags_def)
next
  case (Cons x xs)
  have "\<exists>p. get_path (objects P) x = Some p \<and> (x \<noteq> root_tag P \<longrightarrow> get_tag P p = Inr x)"
  proof (cases "x = root_tag P")
    case True
    then show ?thesis using r by (simp add: get_path_root)
  next
    case False
    with Cons.prems have "descendant (objects P) (root_tag P) x" by simp
    from path_round_trip [OF pc r this] show ?thesis by blast
  qed
  then obtain p where p: "get_path (objects P) x = Some p" "x \<noteq> root_tag P \<longrightarrow> get_tag P p = Inr x"
    by blast
  from Cons.prems have "\<forall>y\<in>set xs. y = root_tag P \<or> descendant (objects P) (root_tag P) y" by simp
  from Cons.IH [OF this, of "acc @ [p]"] obtain ps where
    ps: "paths_loop (objects P) xs (acc @ [p]) = Some ((acc @ [p]) @ ps)"
        "root_tag P \<notin> set xs \<longrightarrow> get_tags P ps = Inr xs" by blast
  have "paths_loop (objects P) (x # xs) acc = Some (acc @ (p # ps)) \<and>
        (root_tag P \<notin> set (x # xs) \<longrightarrow> get_tags P (p # ps) = Inr (x # xs))"
    using p ps by (auto simp: get_tags_def)
  then show ?case by blast
qed

lemma get_tags_cong:
  assumes "objects P' = objects P" "root_tag P' = root_tag P"
  shows "get_tags P' ps = get_tags P ps"
proof -
  have "get_tag P' = get_tag P" unfolding get_tag_def assms ..
  then show ?thesis by (simp add: get_tags_def)
qed

text \<open>
  C9, as stated, fails: on the tree of \<^verbatim>\<open><div></div>\<close> the empty query with caching
  returns the root and the \<^verbatim>\<open>div\<close> node and caches the paths \<^verbatim>\<open>''\<close> and \<^verbatim>\<open>'0'\<close>; the
  second call raises \<^verbatim>\<open>ValueError\<close> when it decodes the root's empty path.
\<close>

theorem C9_counterexample:
  "case HtmlParser_init [Starttag ''div'' [], Endtag ''div''] of
     Some (Inr P) \<Rightarrow>
       (case HtmlParser_select P [] True of
          Some (Inr (res, P')) \<Rightarrow>
            res = [root_tag P, 1] \<and> cache_dict P' = [([], [[], ''0''])] \<and>
            HtmlParser_select P' [] True = Some (Inl ValueError)
        | _ \<Rightarrow> False)
   | _ \<Rightarrow> False"
  by (simp add: build_simps select_simps path_simps)

text \<open>
  C9, amended: on every tree the builder returns, a call of \<^verbatim>\<open>select\<close> with caching
  returns (a result or an error); and when it returns a node sequence that does not
  contain the root, a second call with the same query, with no re-parse in between,
  returns the same node sequence and leaves the parser as it is: every path the cache
  holds for the query decodes, to the very node it was encoded from.
\<close>

theorem C9_cached_select:
  assumes "feed es = Some (Inr b)" and "objects P = heap b" and "root_tag P = root b"
  shows "\<exists>r. HtmlParser_select P c True = Some r \<and>
     (\<forall>res P'. r = Inr (res, P') \<and> root b \<notin> set res \<longrightarrow>
         HtmlParser_select P' c True = Some (Inr (res, P')))"
proof (cases "map_of (cache_dict P) c")
  case (Some path_list)
  show ?thesis
  proof (cases "get_tags P path_list")
    case (Inl e)
    with Some show ?thesis by (simp add: HtmlParser_select_def)
  next
    case (Inr ts)
    with Some have "HtmlParser_select P c True = Some (Inr (ts, P))"
      by (simp add: HtmlParser_select_def)
    then show ?thesis by simp
  qed
next
  case None
  from assms(1) have inv: "tree_inv b" by (rule tree_inv_feed)
  have pc: "parent_of_child (objects P)" using inv assms(2) by (simp add: tree_inv_def)
  have r: "parent (objects P (root_tag P)) = None"
    using tree_inv_root [OF inv] assms(2,3) by simp
  from HtmlTag_select_results [OF assms(1), of c] obtain r0 where
    r0: "HtmlTag_select (objects P) (root_tag P) c = Some r0"
    and res: "\<forall>res. r0 = Inr res \<longrightarrow> (\<forall>x\<in>set res. x = root b \<or> descendant (heap b) (root b) x)"
    unfolding assms(2,3) by blast
  show ?thesis
  proof (cases r0)
    case (Inl e)
    with None r0 show ?thesis by (simp add: HtmlParser_select_def)
  next
    case (Inr tags)
    with res have "\<forall>x\<in>set tags. x = root_tag P \<or> descendant (objects P) (root_tag P) x"
      by (simp add: assms(2,3))
    from paths_loop_round_trip [OF pc r this, of "[]"] obtain ps where
      ps: "paths_loop (objects P) tags [] = Some ps" "root_tag P \<notin> set tags \<longrightarrow> get_tags P ps = Inr tags"
      by auto
    let ?P' = "P\<lparr>cache_dict := AList.update c ps (AList.update c [] (cache_dict P))\<rparr>"
    have first: "HtmlParser_select P c True = Some (Inr (tags, ?P'))"
      using None r0 Inr ps(1) by (simp add: HtmlParser_select_def)
    have cached: "map_of (cache_dict ?P') c = Some ps" by (simp add: update_conv')
    have second: "HtmlParser_select ?P' c True = Some (Inr (tags, ?P'))" if "root b \<notin> set tags"
    proof -
      from that ps(2) have "get_tags P ps = Inr tags" by (simp add: assms(3))
      moreover have "get_tags ?P' ps = get_tags P ps" by (rule get_tags_cong) simp_all
      ultimately have "get_tags ?P' ps = Inr tags" by simp
      with cached show ?thesis by (simp add: HtmlParser_select_def)
    qed
    from first second show ?thesis by simp
  qed
qed

text \<open>
  C9, witness: the query \<^verbatim>\<open>div span\<close> on \<^verbatim>\<open><div><div><span></span></div></div>\<close>,
  twice.
\<close>

theorem C9_witness:
  "\<exists>b P P'. feed span_in_two_divs = Some (Inr b) \<and> objects P = heap b \<and> root_tag P = root b \<and>
      HtmlParser_select P ''div span'' True = Some (Inr ([3, 3], P')) \<and> root b \<notin> set [3, 3] \<and>
      cache_dict P' = [(''div span'', [''0:0:0'', ''0:0:0''])] \<and>
      HtmlParser_select P' ''div span'' True = Some (Inr ([3, 3], P'))"
proof -
  obtain b where b: "feed span_in_two_divs = Some (Inr b)" and r: "root b = 0"
    and s: "\<exists>P'. HtmlParser_select \<lparr>cache_dict = [], objects = heap b, root_tag = root b\<rparr> ''div span'' True
                = Some (Inr ([3, 3], P')) \<and> cache_dict P' = [(''div span'', [''0:0:0'', ''0:0:0''])]"
    by (simp add: span_in_two_divs_def build_simps select_simps path_simps)
  define P where "P = \<lparr>cache_dict = [], objects = heap b, root_tag = root b\<rparr>"
  from s obtain P' where P': "HtmlParser_select P ''div span'' True = Some (Inr ([3, 3], P'))"
    "cache_dict P' = [(''div span'', [''0:0:0'', ''0:0:0''])]"
    unfolding P_def by blast
  have o: "objects P = heap b" "root_tag P = root b" by (simp_all add: P_def)
  have n: "root b \<notin> set [3, 3]" using r by simp
  from C9_cached_select [OF b o, of "''div span''"] P'(1) n
  have "HtmlParser_select P' ''div span'' True = Some (Inr ([3, 3], P'))" by auto
  with b o P' n show ?thesis by blast
qed

section \<open>Mismatch recovery on a concrete stream\<close>

text \<open>
  C1, as stated, fails: after \<^verbatim>\<open>open(div) open(span) open(em) text("x") close(div)\<close>
  the root's only child is the \<^verbatim>\<open>div\<close> node, but that node is not childless.
\<close>

theorem C1_counterexample:
  "\<not> (\<exists>s d. feed em_in_span_in_div = Some (Inr s) \<and> children (heap s (root s)) = [d] \<and>
            tag (heap s d) = ''div'' \<and> children (heap s d) = [])"
  by (simp add: em_in_span_in_div_def build_simps)

text \<open>
  C1, amended: the builder returns a tree whose root has the \<^verbatim>\<open>div\<close> node as its only
  child; the \<^verbatim>\<open>div\<close> node has two children, the \<^verbatim>\<open>span\<close> node and the \<^verbatim>\<open>em\<close> node, in
  that order, both childless; the \<^verbatim>\<open>em\<close> node keeps its text \<^verbatim>\<open>x\<close>.
\<close>

theorem C1_recovery_example:
  "\<exists>s. feed em_in_span_in_div = Some (Inr s) \<and>
       children (heap s (root s)) = [1] \<and>
       tag (heap s 1) = ''div'' \<and> children (heap s 1) = [2, 3] \<and>
       tag (heap s 2) = ''span'' \<and> children (heap s 2) = [] \<and>
       tag (heap s 3) = ''em'' \<and> children (heap s 3) = [] \<and> text' (heap s 3) = ''x''"
  by (simp add: em_in_span_in_div_def build_simps)

section \<open>Repeated results of a chained query\<close>

text \<open>
  C10: in the tree of \<^verbatim>\<open><div><div><span></span></div></div>\<close> the query
  \<^verbatim>\<open>div span\<close> returns the \<^verbatim>\<open>span\<close> node twice: it is queued once below each of the
  two matching \<^verbatim>\<open>div\<close> nodes, each time with the single remaining predicate \<^verbatim>\<open>span\<close>.
\<close>

theorem C10_duplicate_results:
  "\<exists>s. feed span_in_two_divs = Some (Inr s) \<and> tag (heap s 3) = ''span'' \<and>
       HtmlTag_select (heap s) (root s) ''div span'' = Some (Inr [3, 3])"
  by (simp add: span_in_two_divs_def build_simps select_simps)

end
